theory Spec2Isabelle
  imports Complex_Main "HOL-Library.Multiset"
begin

section \<open>Data model\<close>

text \<open>
  An operation kind of the catalogue (\<^verbatim>\<open>Op\<close>) and a statement of the data-flow graph
  (\<^verbatim>\<open>Stmt\<close>).  The C++ \<^verbatim>\<open>int\<close> fields are unbounded integers here (signed overflow is
  undefined in C++ and no scheduling quantity comes near the bound); vector positions are
  natural numbers; the \<^verbatim>\<open>double\<close> delays and the clock period are real numbers.  The one
  sum the scheduler compares with the clock period is \<^verbatim>\<open>op->delay + usedDelay\<close>; where
  \<^verbatim>\<open>usedDelay\<close> is zero the sum is exact in floating point too.
\<close>

record Op =
  name :: string
  latency :: int
  delay :: real
  limit :: int

record Stmt =
  idx :: nat
  op :: Op
  start_cycle :: int

datatype error = RuntimeError string

type_synonym adjacency = "nat list list"

section \<open>Topological canonicalizer\<close>

definition validateTopologicalOrder :: "Stmt list \<Rightarrow> adjacency \<Rightarrow> bool" where
  "validateTopologicalOrder stmts dependencies =
     list_all (\<lambda>statement.
        list_all (\<lambda>dependencyIdx. \<not> dependencyIdx > idx statement)
          (dependencies ! idx statement)) stmts"

text \<open>
  One pass of the inner \<^verbatim>\<open>for (int successor : usage_links[current])\<close> loop of Kahn's
  algorithm: decrement the counter and enqueue the successor when it reaches zero.  An index
  beyond the vector is undefined behaviour in C++; the model leaves the state as it is.
\<close>

definition visit_successor :: "nat \<Rightarrow> int list \<times> nat list \<Rightarrow> int list \<times> nat list" where
  "visit_successor successor = (\<lambda>(incomingEdges, zeroIncomingEdges).
     if successor < length incomingEdges then
       (let incomingEdges' = incomingEdges[successor := incomingEdges ! successor - 1]
        in (incomingEdges',
            if incomingEdges' ! successor = 0 then zeroIncomingEdges @ [successor]
            else zeroIncomingEdges))
     else (incomingEdges, zeroIncomingEdges))"

function kahn :: "adjacency \<Rightarrow> int list \<Rightarrow> nat list \<Rightarrow> nat list \<Rightarrow> nat list" where
  "kahn usage_links incomingEdges [] sortedOrder = sortedOrder"
| "kahn usage_links incomingEdges (current # zeroIncomingEdges) sortedOrder =
     (case fold visit_successor (usage_links ! current) (incomingEdges, zeroIncomingEdges) of
        (incomingEdges', zeroIncomingEdges') \<Rightarrow>
          kahn usage_links incomingEdges' zeroIncomingEdges' (sortedOrder @ [current]))"
  by pat_completeness auto
termination
proof (relation "measure (\<lambda>(u, ie, q, so). length q + length (filter (\<lambda>e. 0 < e) ie))",
       goal_cases)
  case 1
  show ?case by simp
next
  case (2 usage_links incomingEdges current zeroIncomingEdges sortedOrder x1 x2)
  define pending :: "int list \<times> nat list \<Rightarrow> nat"
    where "pending = (\<lambda>(ie, q). length q + length (filter (\<lambda>e. 0 < e) ie))"
  have upd: "length (filter (\<lambda>e. 0 < e) (ie[w := v])) + (if 0 < ie ! w then 1 else 0)
       = length (filter (\<lambda>e. 0 < e) ie) + (if 0 < v then 1 else 0)"
    if "w < length ie" for ie :: "int list" and w v
    using that
  proof (induction ie arbitrary: w)
    case Nil
    then show ?case by simp
  next
    case (Cons a ie)
    then show ?case by (cases w) auto
  qed
  have one_step: "pending (visit_successor w st) = pending st" for w st
  proof (cases st)
    case (Pair ie q)
    show ?thesis
    proof (cases "w < length ie")
      case False
      then show ?thesis by (simp add: visit_successor_def Pair)
    next
      case True
      have one: "ie ! w - 1 = 0 \<longleftrightarrow> ie ! w = 1" by arith
      have pos: "0 < ie ! w - 1 \<longleftrightarrow> 1 < ie ! w" by arith
      show ?thesis
        using upd [OF True, of "ie ! w - 1"] True
        by (cases "ie ! w = 1")
           (auto simp: visit_successor_def Pair pending_def Let_def one pos split: if_splits)
    qed
  qed
  have all_steps: "pending (fold visit_successor ws st) = pending st" for ws st
    by (induction ws arbitrary: st) (simp_all add: one_step)
  have "pending (x1, x2) = pending (incomingEdges, zeroIncomingEdges)"
    using all_steps [of "usage_links ! current" "(incomingEdges, zeroIncomingEdges)"] 2
    by simp
  then show ?case by (simp add: pending_def)
qed

definition reorderToTopological ::
  "Stmt list \<Rightarrow> adjacency \<Rightarrow> adjacency \<Rightarrow> error + Stmt list \<times> adjacency \<times> adjacency" where
  "reorderToTopological statements dependencies usage_links =
     (if validateTopologicalOrder statements dependencies
      then Inr (statements, dependencies, usage_links)
      else
        let count = length statements;
            incomingEdges = map (\<lambda>i. int (length (dependencies ! i))) [0..<count];
            zeroIncomingEdges = filter (\<lambda>i. incomingEdges ! i = 0) [0..<count];
            sortedOrder = kahn usage_links incomingEdges zeroIncomingEdges []
        in if length sortedOrder < count
           then Inl (RuntimeError ''Topological order cannot be fixed due to a cycle.'')
           else
             let reorderedStatements =
                   map (\<lambda>i. (statements ! (sortedOrder ! i))\<lparr>idx := i\<rparr>) [0..<count];
                 updatedDependencies =
                   map (\<lambda>i. map (\<lambda>dep. idx (reorderedStatements ! dep))
                                (dependencies ! (sortedOrder ! i))) [0..<count];
                 updatedUsageLinks =
                   map (\<lambda>i. map (\<lambda>use. idx (reorderedStatements ! use))
                                (usage_links ! (sortedOrder ! i))) [0..<count]
             in Inr (reorderedStatements, updatedDependencies, updatedUsageLinks))"


section \<open>ASAP and ALAP passes\<close>

definition reset_start :: "Stmt \<Rightarrow> Stmt" where
  "reset_start statement = statement\<lparr>start_cycle := 0\<rparr>"

text \<open>The write \<^verbatim>\<open>statements[i]->start_cycle = c\<close>.\<close>

definition set_start_cycle :: "nat \<Rightarrow> int \<Rightarrow> Stmt list \<Rightarrow> Stmt list" where
  "set_start_cycle i c stmts = stmts[i := (stmts ! i)\<lparr>start_cycle := c\<rparr>]"

text \<open>
  The body of \<^verbatim>\<open>for (int predecessorIndex : dependencies[statement->idx])\<close>; \<open>p\<close> is the
  position of the statement being placed, read again at every step as the code does through
  its reference.
\<close>

definition asap_pred :: "nat \<Rightarrow> nat \<Rightarrow> Stmt list \<Rightarrow> Stmt list" where
  "asap_pred p predecessorIndex statements =
     (let predecessor = statements ! predecessorIndex;
          predecessorCompletion =
            start_cycle predecessor + max (latency (op predecessor) - 1) 0;
          statement = statements ! p
      in set_start_cycle p (max (start_cycle statement) (predecessorCompletion + 1))
           statements)"

definition asap_stmt :: "adjacency \<Rightarrow> nat \<Rightarrow> Stmt list \<times> int \<Rightarrow> Stmt list \<times> int" where
  "asap_stmt dependencies p = (\<lambda>(statements, maximumLatency).
     let statements' =
           (if dependencies ! idx (statements ! p) = []
            then set_start_cycle p 1 statements
            else fold (asap_pred p) (dependencies ! idx (statements ! p)) statements);
         statement = statements' ! p
      in (statements',
          max maximumLatency (start_cycle statement + max (latency (op statement) - 1) 0)))"

definition scheduleASAP :: "Stmt list \<Rightarrow> adjacency \<Rightarrow> Stmt list \<times> int" where
  "scheduleASAP stmts dependencies =
     fold (asap_stmt dependencies) [0..<length stmts] (map reset_start stmts, 0)"

definition alap_stmt :: "adjacency \<Rightarrow> int \<Rightarrow> nat \<Rightarrow> Stmt list \<times> int \<Rightarrow> Stmt list \<times> int" where
  "alap_stmt usage_links asapLatency p = (\<lambda>(statements, earliestCycle).
     let statement = statements ! p in
     if usage_links ! idx statement = []
     then (set_start_cycle p (asapLatency - max (latency (op statement) - 1) 0) statements,
           earliestCycle)
     else
       let latestStart =
             fold (\<lambda>successorIndex latestStart.
                     min latestStart (start_cycle (statements ! successorIndex)
                                       - max (latency (op statement)) 1))
                  (usage_links ! idx statement) asapLatency
       in (set_start_cycle p latestStart statements, min earliestCycle latestStart))"

definition finalLatency :: "Stmt list \<Rightarrow> int" where
  "finalLatency statements =
     fold (\<lambda>statement l. max l (start_cycle statement + max (latency (op statement) - 1) 0))
          statements 0"

definition scheduleALAP :: "Stmt list \<Rightarrow> adjacency \<Rightarrow> int \<Rightarrow> Stmt list \<times> int" where
  "scheduleALAP stmts usage_links asapLatency =
     (case fold (alap_stmt usage_links asapLatency) (rev [0..<length stmts])
             (map reset_start stmts, asapLatency) of
        (statements, earliestCycle) \<Rightarrow>
          (let shifted = map (\<lambda>statement. statement\<lparr>start_cycle :=
                                start_cycle statement - (earliestCycle - 1)\<rparr>) statements
           in (shifted, finalLatency shifted)))"

section \<open>List scheduler\<close>

text \<open>
  The local state of \<^verbatim>\<open>scheduleByList\<close>.  The two \<^verbatim>\<open>std::set<int>\<close> are duplicate-free
  lists (\<open>notReady\<close> in ascending order, the order the code iterates it in);
  \<open>readyQueue\<close> is the vector that underlies the priority queue; the nested
  \<^verbatim>\<open>unordered_map\<close> is a total function that is \<open>0\<close> wherever no entry was written, which
  is what \<^verbatim>\<open>operator[]\<close> returns for a key it has to create.
\<close>

record sched_state =
  statements :: "Stmt list"
  completedStatements :: "nat list"
  notReady :: "nat list"
  readyQueue :: "nat list"
  delayByCycle :: "int \<Rightarrow> nat \<Rightarrow> real"
  currentCycle :: int
  scheduled :: "nat list"

definition calculateResourceUsage :: "Stmt list \<Rightarrow> int \<Rightarrow> Op \<Rightarrow> int" where
  "calculateResourceUsage stmts cycle operation =
     (if limit operation < 0 then - 2
      else int (length (filter (\<lambda>stmt.
              start_cycle stmt \<noteq> 0 \<and> name (op stmt) = name operation \<and>
              cycle \<ge> start_cycle stmt \<and> cycle < start_cycle stmt + latency (op stmt))
            stmts)))"

definition comparator :: "int list \<Rightarrow> Stmt list \<Rightarrow> nat \<Rightarrow> nat \<Rightarrow> bool" where
  "comparator priority stmts a b =
     (if priority ! a = priority ! b
      then delay (op (stmts ! a)) > delay (op (stmts ! b))
      else priority ! a > priority ! b)"

text \<open>
  \<^verbatim>\<open>std::priority_queue<int, vector<int>, decltype(comparator)>\<close> keeps its elements in
  a vector arranged as a binary heap: \<^verbatim>\<open>push\<close> is \<^verbatim>\<open>push_back\<close> followed by
  \<^verbatim>\<open>std::push_heap\<close>, \<^verbatim>\<open>top\<close> is \<^verbatim>\<open>front\<close>, and \<^verbatim>\<open>pop\<close> is \<^verbatim>\<open>std::pop_heap\<close>
  followed by \<^verbatim>\<open>pop_back\<close>.  Which of several elements that the comparator does not
  separate comes out first is decided by these algorithms, so they are modelled as the GNU
  C++ library writes them (\<^verbatim>\<open>bits/stl_heap.h\<close>): \<open>push_heap_loop\<close> is \<^verbatim>\<open>__push_heap\<close>,
  which moves the hole at \<open>holeIndex\<close> up while the parent is ordered below the value;
  \<open>adjust_heap_loop\<close> is the \<^verbatim>\<open>while\<close> loop of \<^verbatim>\<open>__adjust_heap\<close>, which moves the hole
  down to the larger child, and \<open>adjust_heap\<close> is the rest of that function: the case of a
  last node with a single child, then \<^verbatim>\<open>__push_heap\<close> of the value from the hole.  The
  library calls \<^verbatim>\<open>__adjust_heap\<close> with \<open>len \<ge> 1\<close> only, where the natural-number
  quotients \<open>(len - 1) div 2\<close> and \<open>(len - 2) div 2\<close> agree with the C++ ones whenever
  they are compared.
\<close>

function push_heap_loop :: "(nat \<Rightarrow> nat \<Rightarrow> bool) \<Rightarrow> nat list \<Rightarrow> nat \<Rightarrow> nat \<Rightarrow> nat \<Rightarrow> nat list" where
  "push_heap_loop cmp c holeIndex topIndex v =
     (let parent = (holeIndex - 1) div 2
      in if holeIndex > topIndex \<and> cmp (c ! parent) v
         then push_heap_loop cmp (c[holeIndex := c ! parent]) parent topIndex v
         else c[holeIndex := v])"
  by pat_completeness auto
termination
  by (relation "measure (\<lambda>(cmp, c, holeIndex, topIndex, v). holeIndex)") auto

declare push_heap_loop.simps [simp del]

definition queue_push :: "(nat \<Rightarrow> nat \<Rightarrow> bool) \<Rightarrow> nat \<Rightarrow> nat list \<Rightarrow> nat list" where
  "queue_push cmp x c = push_heap_loop cmp (c @ [x]) (length (c @ [x]) - 1) 0 x"

function adjust_heap_loop ::
  "(nat \<Rightarrow> nat \<Rightarrow> bool) \<Rightarrow> nat \<Rightarrow> nat list \<Rightarrow> nat \<Rightarrow> nat \<Rightarrow> nat list \<times> nat \<times> nat" where
  "adjust_heap_loop cmp len c holeIndex secondChild =
     (if secondChild < (len - 1) div 2
      then (let child = 2 * (secondChild + 1);
                child' = (if cmp (c ! child) (c ! (child - 1)) then child - 1 else child)
            in adjust_heap_loop cmp len (c[holeIndex := c ! child']) child' child')
      else (c, holeIndex, secondChild))"
  by pat_completeness auto
termination
  by (relation "measure (\<lambda>(cmp, len, c, holeIndex, secondChild). len - secondChild)") auto

declare adjust_heap_loop.simps [simp del]

definition adjust_heap ::
  "(nat \<Rightarrow> nat \<Rightarrow> bool) \<Rightarrow> nat list \<Rightarrow> nat \<Rightarrow> nat \<Rightarrow> nat \<Rightarrow> nat list" where
  "adjust_heap cmp c holeIndex len v =
     (case adjust_heap_loop cmp len c holeIndex holeIndex of
        (c1, holeIndex1, secondChild1) \<Rightarrow>
          if even len \<and> secondChild1 = (len - 2) div 2
          then (let secondChild2 = 2 * (secondChild1 + 1)
                in push_heap_loop cmp (c1[holeIndex1 := c1 ! (secondChild2 - 1)])
                     (secondChild2 - 1) holeIndex v)
          else push_heap_loop cmp c1 holeIndex1 holeIndex v)"

definition queue_pop :: "(nat \<Rightarrow> nat \<Rightarrow> bool) \<Rightarrow> nat list \<Rightarrow> nat list" where
  "queue_pop cmp c =
     butlast (if length c > 1
              then adjust_heap cmp (c[length c - 1 := c ! 0]) 0 (length c - 1)
                     (c ! (length c - 1))
              else c)"

definition queue_top :: "nat list \<Rightarrow> nat" where
  "queue_top c = c ! 0"

text \<open>
  \<^verbatim>\<open>delayByCycle[c][k] = max(delayByCycle[c][k], d)\<close>, the form of both ledger writes.
\<close>

definition raise_delay ::
  "int \<Rightarrow> nat \<Rightarrow> real \<Rightarrow> (int \<Rightarrow> nat \<Rightarrow> real) \<Rightarrow> (int \<Rightarrow> nat \<Rightarrow> real)" where
  "raise_delay c k d ledger = ledger(c := (ledger c)(k := max (ledger c k) d))"

text \<open>
  The branch that places a combinational statement (lines 212 to 217).  \<^verbatim>\<open>usedDelay\<close> is a
  reference into the ledger, so the sum is read from the ledger at every successor.
\<close>

definition schedule_combinational :: "adjacency \<Rightarrow> nat \<Rightarrow> sched_state \<Rightarrow> sched_state" where
  "schedule_combinational usage_links i s =
     (let c = currentCycle s;
          stmts = set_start_cycle i c (statements s);
          d = delay (op (stmts ! i))
      in s\<lparr>statements := stmts,
            scheduled := scheduled s @ [i],
            delayByCycle :=
              fold (\<lambda>successorIndex ledger.
                      raise_delay c (idx (stmts ! successorIndex)) (ledger c i + d) ledger)
                   (usage_links ! i) (delayByCycle s)\<rparr>)"

text \<open>The branch that places a resource-limited statement (lines 220 to 228).\<close>

definition schedule_physical :: "adjacency \<Rightarrow> nat \<Rightarrow> sched_state \<Rightarrow> sched_state" where
  "schedule_physical usage_links i s =
     (let c = currentCycle s;
          stmts = set_start_cycle i c (statements s);
          stmt = stmts ! i
      in s\<lparr>statements := stmts,
            scheduled := scheduled s @ [i],
            delayByCycle :=
              fold (\<lambda>successorIndex ledger.
                      let successor = stmts ! successorIndex
                      in if limit (op successor) < 0
                         then raise_delay (c + latency (op stmt) - 1) (idx successor)
                                (delay (op stmt)) ledger
                         else ledger)
                   (usage_links ! i) (delayByCycle s)\<rparr>)"

text \<open>
  One pass through the body of \<^verbatim>\<open>while (!readyQueue.empty())\<close>; the flag tells whether
  the pass ended in \<^verbatim>\<open>break\<close>.
\<close>

definition drain_body ::
  "int list \<Rightarrow> adjacency \<Rightarrow> real \<Rightarrow> sched_state \<Rightarrow> sched_state \<times> bool" where
  "drain_body priority usage_links time_period s0 =
     (let i = queue_top (readyQueue s0);
          s = s0\<lparr>readyQueue :=
                  queue_pop (comparator priority (statements s0)) (readyQueue s0)\<rparr>;
          stmt = statements s ! i;
          usedDelay = delayByCycle s (currentCycle s) i
      in if limit (op stmt) < 0 then
           (if delay (op stmt) + usedDelay \<le> time_period
            then (schedule_combinational usage_links i s, False)
            else (s\<lparr>readyQueue :=
                     queue_push (comparator priority (statements s)) i (readyQueue s)\<rparr>,
                  False))
         else if calculateResourceUsage (statements s) (currentCycle s) (op stmt)
                   < limit (op stmt)
         then (schedule_physical usage_links i s, False)
         else (s\<lparr>readyQueue :=
                 queue_push (comparator priority (statements s)) i (readyQueue s)\<rparr>,
               True))"

definition isReady :: "adjacency \<Rightarrow> sched_state \<Rightarrow> nat \<Rightarrow> bool" where
  "isReady dependencies s i =
     list_all (\<lambda>dep.
        \<not> (dep \<notin> set (completedStatements s) \<or>
           start_cycle (statements s ! dep) + max (latency (op (statements s ! dep))) 1
             > currentCycle s + 1))
       (dependencies ! i)"

text \<open>
  Lines 235 to 256: commit the scheduled indices, promote, advance the cycle.  The vector
  \<^verbatim>\<open>scheduled\<close> is local to the loop body and ends with it.
\<close>

definition end_of_cycle :: "int list \<Rightarrow> adjacency \<Rightarrow> sched_state \<Rightarrow> sched_state" where
  "end_of_cycle priority dependencies s0 =
     (let s = s0\<lparr>completedStatements := fold List.insert (scheduled s0) (completedStatements s0)\<rparr>
      in s\<lparr>readyQueue := fold (queue_push (comparator priority (statements s)))
                            (filter (isReady dependencies s) (notReady s)) (readyQueue s),
            notReady := filter (\<lambda>i. \<not> isReady dependencies s i) (notReady s),
            currentCycle := currentCycle s + 1,
            scheduled := []\<rparr>)"

definition init_state :: "Stmt list \<Rightarrow> adjacency \<Rightarrow> sched_state" where
  "init_state stmts dependencies =
     \<lparr>statements = map reset_start stmts,
      completedStatements = [],
      notReady = filter (\<lambda>i. dependencies ! i \<noteq> []) [0..<length stmts],
      readyQueue = fold (queue_push (comparator (map start_cycle stmts) (map reset_start stmts)))
                     (filter (\<lambda>i. dependencies ! i = []) [0..<length stmts]) [],
      delayByCycle = (\<lambda>cycle i. 0),
      currentCycle = 1,
      scheduled = []\<rparr>"

text \<open>
  The control points of the two nested loops: the test of the outer \<^verbatim>\<open>while\<close>, the test of
  the inner one, and the code after the inner loop.  A configuration is finished when the
  test of the outer loop fails; \<open>step\<close> leaves a finished configuration as it is.
\<close>

datatype control = Outer | Drain | Commit

type_synonym config = "control \<times> sched_state"

definition finished :: "config \<Rightarrow> bool" where
  "finished cfg = (fst cfg = Outer \<and>
     \<not> length (completedStatements (snd cfg)) < length (statements (snd cfg)))"

definition step :: "int list \<Rightarrow> adjacency \<Rightarrow> adjacency \<Rightarrow> real \<Rightarrow> config \<Rightarrow> config" where
  "step priority dependencies usage_links time_period cfg =
     (case cfg of
        (Outer, s) \<Rightarrow>
          if length (completedStatements s) < length (statements s)
          then (Drain, s\<lparr>scheduled := []\<rparr>)
          else (Outer, s)
      | (Drain, s) \<Rightarrow>
          if readyQueue s = [] then (Commit, s)
          else (case drain_body priority usage_links time_period s of
                  (s', stop) \<Rightarrow> (if stop then Commit else Drain, s'))
      | (Commit, s) \<Rightarrow> (Outer, end_of_cycle priority dependencies s))"

text \<open>
  Both loops can run forever, so the run is bounded by fuel: \<open>None\<close> means that the
  scheduler has not returned within that many steps.
\<close>

fun run :: "int list \<Rightarrow> adjacency \<Rightarrow> adjacency \<Rightarrow> real \<Rightarrow> nat \<Rightarrow> config \<Rightarrow> sched_state option" where
  "run priority dependencies usage_links time_period 0 cfg =
     (if finished cfg then Some (snd cfg) else None)"
| "run priority dependencies usage_links time_period (Suc fuel) cfg =
     (if finished cfg then Some (snd cfg)
      else run priority dependencies usage_links time_period fuel
             (step priority dependencies usage_links time_period cfg))"

definition scheduleByList ::
  "nat \<Rightarrow> Stmt list \<Rightarrow> adjacency \<Rightarrow> adjacency \<Rightarrow> real \<Rightarrow> (Stmt list \<times> int) option" where
  "scheduleByList fuel stmts dependencies usage_links time_period =
     map_option (\<lambda>s. (statements s, finalLatency (statements s)))
       (run (map start_cycle stmts) dependencies usage_links time_period fuel
          (Outer, init_state stmts dependencies))"

section \<open>Orchestration\<close>

text \<open>
  \<^verbatim>\<open>get_deps_and_uses\<close> is declared in \<^verbatim>\<open>common.h\<close> and defined outside
  \<^verbatim>\<open>scheduler.cpp\<close>; the two adjacency structures it fills are parameters of \<open>schedule\<close>,
  as is the catalogue, which the code stores and never reads.  The result is the mutated
  graph together with the latency the code prints.
\<close>

definition schedule ::
  "nat \<Rightarrow> Stmt list \<Rightarrow> Op list \<Rightarrow> real \<Rightarrow> adjacency \<Rightarrow> adjacency \<Rightarrow>
   error + (Stmt list \<times> int) option" where
  "schedule fuel graph operationsList cycleTime dependencies usage_links =
     (case reorderToTopological graph dependencies usage_links of
        Inl e \<Rightarrow> Inl e
      | Inr (stmts, deps, uses) \<Rightarrow>
          (case scheduleASAP stmts deps of
             (asap, asapLatency) \<Rightarrow>
               (case scheduleALAP asap uses asapLatency of
                  (alap, alapLatency) \<Rightarrow>
                    Inr (scheduleByList fuel alap deps uses cycleTime))))"

section \<open>Well-formed inputs\<close>

text \<open>
  The adjacency invariant that holds after canonicalization: both structures have one row per
  statement, every statement sits at the position its \<open>idx\<close> names, every dependency of
  statement \<open>i\<close> has a smaller index, and \<open>usage_links\<close> is the transpose of
  \<open>dependencies\<close>.
\<close>

definition canonical :: "Stmt list \<Rightarrow> adjacency \<Rightarrow> adjacency \<Rightarrow> bool" where
  "canonical stmts dependencies usage_links \<longleftrightarrow>
     length dependencies = length stmts \<and> length usage_links = length stmts \<and>
     list_all (\<lambda>i. idx (stmts ! i) = i \<and>
                   list_all (\<lambda>j. j < i \<and> i \<in> set (usage_links ! j)) (dependencies ! i) \<and>
                   list_all (\<lambda>k. k < length stmts \<and> i \<in> set (dependencies ! k))
                     (usage_links ! i))
              [0..<length stmts]"

text \<open>
  The inputs on which the list scheduler can make progress: a combinational statement fits
  into one clock period on its own, and a resource-limited operation has at least one unit.
\<close>

definition well_budgeted :: "Stmt list \<Rightarrow> real \<Rightarrow> bool" where
  "well_budgeted stmts time_period =
     list_all (\<lambda>stmt. (if limit (op stmt) < 0 then delay (op stmt) \<le> time_period
                        else 1 \<le> limit (op stmt))) stmts"

section \<open>Invariants of the list scheduler\<close>

text \<open>
  \<open>span_of s j\<close> is the number of cycles after which the successors of \<open>j\<close> may start, the
  \<^verbatim>\<open>max(latency, 1)\<close> of the promotion test; \<open>released s c j\<close> says that \<open>j\<close> is placed and
  over by cycle \<open>c\<close>.
\<close>

definition start_of :: "sched_state \<Rightarrow> nat \<Rightarrow> int" where
  "start_of s j = start_cycle (statements s ! j)"

definition span_of :: "sched_state \<Rightarrow> nat \<Rightarrow> int" where
  "span_of s j = max (latency (op (statements s ! j))) 1"

definition released :: "sched_state \<Rightarrow> int \<Rightarrow> nat \<Rightarrow> bool" where
  "released s c j \<longleftrightarrow> start_of s j \<noteq> 0 \<and> start_of s j + span_of s j \<le> c"

text \<open>
  The safety invariant: only start cycles change; queued and waiting statements are not
  placed; a queued statement has all predecessors released by the current cycle, a placed
  one had them released by its own start; and a ledger entry that is not zero lies before the
  release of some placed predecessor of its statement.
\<close>

definition sched_inv :: "Stmt list \<Rightarrow> adjacency \<Rightarrow> sched_state \<Rightarrow> bool" where
  "sched_inv stmts0 dependencies s \<longleftrightarrow>
     map reset_start (statements s) = map reset_start stmts0 \<and>
     1 \<le> currentCycle s \<and>
     distinct (readyQueue s) \<and> distinct (notReady s) \<and> distinct (completedStatements s) \<and>
     (\<forall>i \<in> set (readyQueue s). i < length stmts0 \<and> start_of s i = 0 \<and> i \<notin> set (notReady s) \<and>
        (\<forall>j \<in> set (dependencies ! i). released s (currentCycle s) j)) \<and>
     (\<forall>i \<in> set (notReady s). i < length stmts0 \<and> start_of s i = 0) \<and>
     (\<forall>i < length stmts0. start_of s i \<noteq> 0 \<longrightarrow>
        1 \<le> start_of s i \<and> start_of s i \<le> currentCycle s \<and>
        (\<forall>j \<in> set (dependencies ! i). released s (start_of s i) j)) \<and>
     (\<forall>i \<in> set (completedStatements s). i < length stmts0 \<and> start_of s i \<noteq> 0) \<and>
     (\<forall>i \<in> set (scheduled s). i < length stmts0 \<and> start_of s i = currentCycle s) \<and>
     (\<forall>c k. delayByCycle s c k \<noteq> 0 \<longrightarrow>
        (\<exists>j \<in> set (dependencies ! k). start_of s j \<noteq> 0 \<and> c < start_of s j + span_of s j))"

text \<open>
  The statements of kind \<open>k\<close> that are placed and busy in cycle \<open>c\<close>, during the run and in
  the returned schedule.
\<close>

definition busy :: "sched_state \<Rightarrow> Op \<Rightarrow> int \<Rightarrow> nat set" where
  "busy s k c = {i. i < length (statements s) \<and> start_of s i \<noteq> 0 \<and> op (statements s ! i) = k \<and>
                    start_of s i \<le> c \<and> c < start_of s i + latency k}"

definition res_inv :: "sched_state \<Rightarrow> bool" where
  "res_inv s \<longleftrightarrow> (\<forall>k c. 0 \<le> limit k \<longrightarrow> int (card (busy s k c)) \<le> limit k)"

definition busy_count :: "Stmt list \<Rightarrow> Op \<Rightarrow> int \<Rightarrow> nat" where
  "busy_count stmts k c =
     length (filter (\<lambda>stmt. op stmt = k \<and> start_cycle stmt \<le> c \<and>
                             c < start_cycle stmt + latency (op stmt)) stmts)"

definition clear_ledger :: "sched_state \<Rightarrow> sched_state" where
  "clear_ledger s = s\<lparr>delayByCycle := (\<lambda>cycle i. 0)\<rparr>"

text \<open>
  Progress: every statement is in one of the four collections, a waiting statement still
  waits for some predecessor, and at the end of a cycle some placed statement \<open>j\<close> is within
  \<open>start + max(latency, 1)\<close>.  The potential counts the cycles all statements still have to
  go; \<open>effort\<close> bounds the number of steps left.
\<close>

definition remaining :: "sched_state \<Rightarrow> nat \<Rightarrow> nat" where
  "remaining s j =
     (if start_of s j = 0 then nat (span_of s j) + 1
      else nat (start_of s j + span_of s j - currentCycle s))"

definition potential :: "sched_state \<Rightarrow> nat" where
  "potential s = (\<Sum>j<length (statements s). remaining s j)"

definition rank :: "control \<Rightarrow> nat" where
  "rank pc = (case pc of Outer \<Rightarrow> 2 | Drain \<Rightarrow> 1 | Commit \<Rightarrow> 0)"

definition effort :: "config \<Rightarrow> nat" where
  "effort cfg = 3 * potential (snd cfg) + rank (fst cfg)"

definition active_now :: "sched_state \<Rightarrow> bool" where
  "active_now s \<longleftrightarrow>
     (\<exists>j < length (statements s). start_of s j \<noteq> 0 \<and> currentCycle s < start_of s j + span_of s j)"

definition live_inv :: "adjacency \<Rightarrow> config \<Rightarrow> bool" where
  "live_inv dependencies cfg \<longleftrightarrow>
     (\<forall>i < length (statements (snd cfg)).
        i \<in> set (completedStatements (snd cfg)) \<or> i \<in> set (notReady (snd cfg)) \<or>
        i \<in> set (readyQueue (snd cfg)) \<or> i \<in> set (scheduled (snd cfg))) \<and>
     (\<forall>i \<in> set (notReady (snd cfg)). \<exists>j \<in> set (dependencies ! i).
        j \<notin> set (completedStatements (snd cfg)) \<or>
        currentCycle (snd cfg) < start_of (snd cfg) j + span_of (snd cfg) j) \<and>
     (fst cfg = Outer \<longrightarrow> scheduled (snd cfg) = []) \<and>
     (fst cfg \<noteq> Outer \<longrightarrow>
        length (completedStatements (snd cfg)) < length (statements (snd cfg))) \<and>
     (fst cfg = Commit \<longrightarrow> active_now (snd cfg))"

definition fuel_bound :: "Stmt list \<Rightarrow> nat" where
  "fuel_bound stmts =
     3 * sum_list (map (\<lambda>stmt. nat (max (latency (op stmt)) 1) + 1) stmts) + 2"

section \<open>Graphs used in the scenarios\<close>

definition comb :: "real \<Rightarrow> Op" where
  "comb d = \<lparr>name = ''c'', latency = 0, delay = d, limit = - 1\<rparr>"

definition unit_op :: "string \<Rightarrow> int \<Rightarrow> real \<Rightarrow> int \<Rightarrow> Op" where
  "unit_op nm l d m = \<lparr>name = nm, latency = l, delay = d, limit = m\<rparr>"

definition stmt_at :: "nat \<Rightarrow> Op \<Rightarrow> int \<Rightarrow> Stmt" where
  "stmt_at i k c = \<lparr>idx = i, op = k, start_cycle = c\<rparr>"

text \<open>The chain \<open>A \<rightarrow> B \<rightarrow> C\<close> of combinational operations with delay 0.3.\<close>

definition chain :: "Stmt list" where
  "chain = [stmt_at 0 (comb (3 / 10)) 0, stmt_at 1 (comb (3 / 10)) 0, stmt_at 2 (comb (3 / 10)) 0]"

definition chain_deps :: adjacency where "chain_deps = [[], [0], [1]]"

definition chain_uses :: adjacency where "chain_uses = [[1], [2], []]"

definition chain_123 :: "Stmt list" where
  "chain_123 = [stmt_at 0 (comb (3 / 10)) 1, stmt_at 1 (comb (3 / 10)) 2, stmt_at 2 (comb (3 / 10)) 3]"





text \<open>
  An addition that consumes a division listed after it, beside a multiplication and a
  subtraction; and the same four statements in the order the canonicalizer puts them, the
  first three with start cycle \<open>a\<close> and the addition with start cycle \<open>c\<close>.  In that order
  the edge from the division to the addition is the edge from position 0 to position 3.
\<close>

definition out_of_order :: "Stmt list" where
  "out_of_order =
     [stmt_at 0 (unit_op ''ADD'' 1 (1 / 5) 1) 0, stmt_at 1 (unit_op ''DIV'' 5 (1 / 5) 1) 0,
      stmt_at 2 (unit_op ''MUL'' 1 (1 / 5) 1) 0, stmt_at 3 (unit_op ''SUB'' 1 (1 / 5) 1) 0]"

definition out_of_order_deps :: adjacency where
  "out_of_order_deps = [[1], [], [], []]"

definition out_of_order_uses :: adjacency where
  "out_of_order_uses = [[], [0], [], []]"

definition in_order :: "int \<Rightarrow> int \<Rightarrow> Stmt list" where
  "in_order a c =
     [stmt_at 0 (unit_op ''DIV'' 5 (1 / 5) 1) a, stmt_at 1 (unit_op ''MUL'' 1 (1 / 5) 1) a,
      stmt_at 2 (unit_op ''SUB'' 1 (1 / 5) 1) a, stmt_at 3 (unit_op ''ADD'' 1 (1 / 5) 1) c]"

definition in_order_deps :: adjacency where
  "in_order_deps = [[], [], [], [0]]"

definition in_order_uses :: adjacency where
  "in_order_uses = [[3], [], [], []]"

text \<open>Four independent multiplications on two units, with priorities 1 to 4.\<close>

definition four_mul :: "Stmt list" where
  "four_mul = map (\<lambda>i. stmt_at i (unit_op ''MUL'' 1 0 2) (int i + 1)) [0, 1, 2, 3]"

definition four_mul_deps :: adjacency where
  "four_mul_deps = [[], [], [], []]"

definition four_mul_scheduled :: "Stmt list" where
  "four_mul_scheduled =
     [stmt_at 0 (unit_op ''MUL'' 1 0 2) 1, stmt_at 1 (unit_op ''MUL'' 1 0 2) 1,
      stmt_at 2 (unit_op ''MUL'' 1 0 2) 2, stmt_at 3 (unit_op ''MUL'' 1 0 2) 2]"

text \<open>Two three-cycle divisions on one unit feeding a combinational statement.\<close>

definition fan_in :: "Stmt list" where
  "fan_in = [stmt_at 0 (unit_op ''DIV'' 3 (1 / 5) 1) 0, stmt_at 1 (unit_op ''DIV'' 3 (1 / 5) 1) 0,
             stmt_at 2 (comb (1 / 2)) 0]"

definition fan_in_deps :: adjacency where
  "fan_in_deps = [[], [], [0, 1]]"

definition fan_in_uses :: adjacency where
  "fan_in_uses = [[2], [2], []]"

definition fan_in_asap :: "Stmt list" where
  "fan_in_asap =
     [stmt_at 0 (unit_op ''DIV'' 3 (1 / 5) 1) 1, stmt_at 1 (unit_op ''DIV'' 3 (1 / 5) 1) 1,
      stmt_at 2 (comb (1 / 2)) 4]"

definition fan_in_scheduled :: "Stmt list" where
  "fan_in_scheduled =
     [stmt_at 0 (unit_op ''DIV'' 3 (1 / 5) 1) 1, stmt_at 1 (unit_op ''DIV'' 3 (1 / 5) 1) 4,
      stmt_at 2 (comb (1 / 2)) 7]"

text \<open>
  One two-cycle division; two statements of which the first consumes the second, and the
  same two in sorted order; the adjacency of two statements that consume each other; one
  adder slower than the clock; one combinational statement slower than the clock.
\<close>

definition single_div :: "int \<Rightarrow> Stmt list" where
  "single_div c = [stmt_at 0 (unit_op ''DIV'' 2 0 1) c]"

definition swapped_pair :: "Stmt list" where
  "swapped_pair = [stmt_at 0 (unit_op ''ADD'' 1 0 1) 0, stmt_at 1 (comb 0) 0]"

definition swapped_pair_sorted :: "Stmt list" where
  "swapped_pair_sorted = [stmt_at 0 (comb 0) 0, stmt_at 1 (unit_op ''ADD'' 1 0 1) 0]"

definition two_cycle :: adjacency where
  "two_cycle = [[1], [0]]"

definition slow_adder :: "int \<Rightarrow> Stmt list" where
  "slow_adder c = [stmt_at 0 (unit_op ''ADD'' 1 5 1) c]"

definition over_budget :: "Stmt list" where
  "over_budget = [stmt_at 0 (comb 2) 0]"

section \<open>Safety of the list scheduler\<close>

subsection \<open>Reading the hypotheses and the statement vector\<close>

lemma canonicalD:
  assumes "canonical stmts deps uses"
  shows "length deps = length stmts" "length uses = length stmts"
    "\<And>i. i < length stmts \<Longrightarrow> idx (stmts ! i) = i"
    "\<And>i j. i < length stmts \<Longrightarrow> j \<in> set (deps ! i) \<Longrightarrow> j < i \<and> i \<in> set (uses ! j)"
    "\<And>i k. i < length stmts \<Longrightarrow> k \<in> set (uses ! i) \<Longrightarrow> k < length stmts \<and> i \<in> set (deps ! k)"
proof -
  from assms have len: "length deps = length stmts" "length uses = length stmts"
    and each: "\<forall>i \<in> set [0..<length stmts]. idx (stmts ! i) = i \<and>
        (\<forall>j \<in> set (deps ! i). j < i \<and> i \<in> set (uses ! j)) \<and>
        (\<forall>k \<in> set (uses ! i). k < length stmts \<and> i \<in> set (deps ! k))"
    unfolding canonical_def list_all_iff by blast+
  show "length deps = length stmts" "length uses = length stmts" by fact+
  fix i assume "i < length stmts"
  then have i: "i \<in> set [0..<length stmts]" by simp
  from each [rule_format, OF i] show "idx (stmts ! i) = i" by blast
  from each [rule_format, OF i]
  show "\<And>j. j \<in> set (deps ! i) \<Longrightarrow> j < i \<and> i \<in> set (uses ! j)" by blast
  from each [rule_format, OF i]
  show "\<And>k. k \<in> set (uses ! i) \<Longrightarrow> k < length stmts \<and> i \<in> set (deps ! k)" by blast
qed

lemma length_set_start_cycle [simp]: "length (set_start_cycle i c ss) = length ss"
  by (simp add: set_start_cycle_def)

lemma reset_set_start_cycle [simp]:
  "map reset_start (set_start_cycle i c ss) = map reset_start ss"
proof -
  have "map reset_start (ss[i := (ss ! i)\<lparr>start_cycle := c\<rparr>]) = map reset_start ss"
  proof (induction ss arbitrary: i)
    case Nil
    then show ?case by simp
  next
    case (Cons a ss)
    then show ?case by (cases i) (simp_all add: reset_start_def)
  qed
  then show ?thesis by (simp add: set_start_cycle_def)
qed

lemma same_shape_nth:
  "map reset_start a = map reset_start b \<Longrightarrow> op (a ! k) = op (b ! k) \<and> idx (a ! k) = idx (b ! k)"
proof (induction a arbitrary: b k)
  case Nil
  then show ?case by simp
next
  case (Cons x a)
  then obtain y b' where b: "b = y # b'" by (cases b) auto
  with Cons.prems have xy: "reset_start x = reset_start y" and rest: "map reset_start a = map reset_start b'"
    by simp_all
  from xy have "op x = op y \<and> idx x = idx y"
    by (cases x, cases y) (simp add: reset_start_def)
  with Cons.IH [OF rest] b show ?case by (cases k) simp_all
qed

lemma op_set_start_cycle [simp]: "op (set_start_cycle i c ss ! k) = op (ss ! k)"
  using same_shape_nth [OF reset_set_start_cycle] by blast

lemma idx_set_start_cycle [simp]: "idx (set_start_cycle i c ss ! k) = idx (ss ! k)"
  using same_shape_nth [OF reset_set_start_cycle] by blast

lemma start_set_start_cycle:
  "i < length ss \<Longrightarrow> start_cycle (set_start_cycle i c ss ! k) = (if k = i then c else start_cycle (ss ! k))"
  by (simp add: set_start_cycle_def nth_list_update)

lemma start_set_start_cycle_other [simp]:
  "k \<noteq> i \<Longrightarrow> start_cycle (set_start_cycle i c ss ! k) = start_cycle (ss ! k)"
  by (simp add: set_start_cycle_def)

subsection \<open>Placing a statement keeps the invariant\<close>

lemma sched_invD:
  assumes "sched_inv stmts0 deps s"
  shows "map reset_start (statements s) = map reset_start stmts0"
    and "length (statements s) = length stmts0"
    and "1 \<le> currentCycle s"
    and "distinct (readyQueue s)" and "distinct (notReady s)" and "distinct (completedStatements s)"
    and "\<And>i. i \<in> set (readyQueue s) \<Longrightarrow> i < length stmts0 \<and> start_of s i = 0 \<and> i \<notin> set (notReady s)"
    and "\<And>i j. i \<in> set (readyQueue s) \<Longrightarrow> j \<in> set (deps ! i) \<Longrightarrow> released s (currentCycle s) j"
    and "\<And>i. i \<in> set (notReady s) \<Longrightarrow> i < length stmts0 \<and> start_of s i = 0"
    and "\<And>i. i < length stmts0 \<Longrightarrow> start_of s i \<noteq> 0 \<Longrightarrow> 1 \<le> start_of s i \<and> start_of s i \<le> currentCycle s"
    and "\<And>i j. i < length stmts0 \<Longrightarrow> start_of s i \<noteq> 0 \<Longrightarrow> j \<in> set (deps ! i) \<Longrightarrow> released s (start_of s i) j"
    and "\<And>i. i \<in> set (completedStatements s) \<Longrightarrow> i < length stmts0 \<and> start_of s i \<noteq> 0"
    and "\<And>i. i \<in> set (scheduled s) \<Longrightarrow> i < length stmts0 \<and> start_of s i = currentCycle s"
    and "\<And>c k. delayByCycle s c k \<noteq> 0 \<Longrightarrow>
        \<exists>j \<in> set (deps ! k). start_of s j \<noteq> 0 \<and> c < start_of s j + span_of s j"
proof -
  show "map reset_start (statements s) = map reset_start stmts0"
    using assms by (simp add: sched_inv_def)
  then show "length (statements s) = length stmts0"
    using map_eq_imp_length_eq by blast
qed (use assms in \<open>simp_all add: sched_inv_def\<close>)

subsection \<open>The priority queue\<close>

text \<open>
  The heap operations permute the vector: a push adds the element, a pop removes the front
  one.  The invariants below need nothing else of the queue; the order in which equally
  urgent indices come out matters only for the concrete schedules evaluated later.
\<close>

lemma mset_move_hole:
  assumes "i < length c" "j < length c"
  shows "mset (c[i := c ! j, j := v]) = mset (c[i := v])"
proof (cases "i = j")
  case True
  then show ?thesis by simp
next
  case False
  then show ?thesis using assms by (simp add: mset_update nth_list_update)
qed

lemma push_heap_loop_props:
  assumes "holeIndex < n" "n \<le> length c"
  shows "length (push_heap_loop cmp c holeIndex topIndex v) = length c \<and>
         mset (push_heap_loop cmp c holeIndex topIndex v) = mset (c[holeIndex := v]) \<and>
         (\<forall>k. n \<le> k \<longrightarrow> push_heap_loop cmp c holeIndex topIndex v ! k = c ! k)"
  using assms
proof (induction cmp c holeIndex topIndex v rule: push_heap_loop.induct)
  case (1 cmp c h t v)
  let ?p = "(h - 1) div 2"
  show ?case
  proof (cases "h > t \<and> cmp (c ! ?p) v")
    case True
    then have p: "?p < h" by auto
    have unf: "push_heap_loop cmp c h t v = push_heap_loop cmp (c[h := c ! ?p]) ?p t v"
      using True by (subst push_heap_loop.simps) (simp add: Let_def)
    have ih: "length (push_heap_loop cmp (c[h := c ! ?p]) ?p t v) = length (c[h := c ! ?p]) \<and>
         mset (push_heap_loop cmp (c[h := c ! ?p]) ?p t v) = mset (c[h := c ! ?p, ?p := v]) \<and>
         (\<forall>k. n \<le> k \<longrightarrow> push_heap_loop cmp (c[h := c ! ?p]) ?p t v ! k = c[h := c ! ?p] ! k)"
      using "1.IH" [OF refl True] p "1.prems" by simp
    have "mset (c[h := c ! ?p, ?p := v]) = mset (c[h := v])"
      using p "1.prems" by (intro mset_move_hole) simp_all
    moreover have "c[h := c ! ?p] ! k = c ! k" if "n \<le> k" for k
      using that "1.prems" by simp
    ultimately show ?thesis using ih unfolding unf by simp
  next
    case False
    then have unf: "push_heap_loop cmp c h t v = c[h := v]"
      by (subst push_heap_loop.simps) (auto simp: Let_def)
    show ?thesis unfolding unf using "1.prems" by simp
  qed
qed

lemma queue_push_mset: "mset (queue_push cmp x c) = add_mset x (mset c)"
  using push_heap_loop_props [of "length c" "Suc (length c)" "c @ [x]" cmp 0 x]
  by (simp add: queue_push_def)

lemma adjust_heap_loop_props:
  assumes "holeIndex < len" "len \<le> length c" "secondChild < len"
    and "adjust_heap_loop cmp len c holeIndex secondChild = (c1, h1, s1)"
  shows "h1 < len \<and> s1 < len \<and> \<not> s1 < (len - 1) div 2 \<and> length c1 = length c \<and>
         mset (c1[h1 := v]) = mset (c[holeIndex := v]) \<and>
         (\<forall>k. len \<le> k \<longrightarrow> c1 ! k = c ! k)"
  using assms
proof (induction cmp len c holeIndex secondChild rule: adjust_heap_loop.induct)
  case (1 cmp len c h s)
  show ?case
  proof (cases "s < (len - 1) div 2")
    case False
    then have "adjust_heap_loop cmp len c h s = (c, h, s)"
      by (simp add: adjust_heap_loop.simps)
    then show ?thesis using "1.prems" False by simp
  next
    case True
    define child where "child = 2 * (s + 1)"
    define child' where "child' = (if cmp (c ! child) (c ! (child - 1)) then child - 1 else child)"
    have cl: "child < len" using True by (simp add: child_def)
    then have cl': "child' < len" by (auto simp: child'_def)
    have unf: "adjust_heap_loop cmp len c h s
                 = adjust_heap_loop cmp len (c[h := c ! child']) child' child'"
      using True by (subst adjust_heap_loop.simps) (simp add: Let_def child_def child'_def)
    have ih: "h1 < len \<and> s1 < len \<and> \<not> s1 < (len - 1) div 2 \<and> length c1 = length (c[h := c ! child']) \<and>
         mset (c1[h1 := v]) = mset (c[h := c ! child', child' := v]) \<and>
         (\<forall>k. len \<le> k \<longrightarrow> c1 ! k = c[h := c ! child'] ! k)"
      using "1.IH" [OF True child_def child'_def] cl' "1.prems" unf by simp
    have "mset (c[h := c ! child', child' := v]) = mset (c[h := v])"
      using cl' "1.prems" by (intro mset_move_hole) simp_all
    moreover have "c[h := c ! child'] ! k = c ! k" if "len \<le> k" for k
      using that "1.prems" by simp
    ultimately show ?thesis using ih by simp
  qed
qed

lemma adjust_heap_props:
  assumes "holeIndex < len" "len \<le> length c"
  shows "length (adjust_heap cmp c holeIndex len v) = length c \<and>
         mset (adjust_heap cmp c holeIndex len v) = mset (c[holeIndex := v]) \<and>
         (\<forall>k. len \<le> k \<longrightarrow> adjust_heap cmp c holeIndex len v ! k = c ! k)"
proof -
  obtain c1 h1 s1 where l: "adjust_heap_loop cmp len c holeIndex holeIndex = (c1, h1, s1)"
    by (cases "adjust_heap_loop cmp len c holeIndex holeIndex") auto
  note a = adjust_heap_loop_props [OF assms(1) assms(2) assms(1) l]
  show ?thesis
  proof (cases "even len \<and> s1 = (len - 2) div 2")
    case False
    then have r: "adjust_heap cmp c holeIndex len v = push_heap_loop cmp c1 h1 holeIndex v"
      by (auto simp: adjust_heap_def l)
    have "h1 < len" "len \<le> length c1" using a [of v] assms by simp_all
    from push_heap_loop_props [OF this, of cmp holeIndex v] a [of v]
    show ?thesis unfolding r by simp
  next
    case True
    define h2 where "h2 = 2 * (s1 + 1) - 1"
    have len2: "2 \<le> len" using True assms(1) by (auto elim!: evenE)
    have h2: "h2 = len - 1" using True len2 by (auto simp: h2_def elim!: evenE)
    have r: "adjust_heap cmp c holeIndex len v
               = push_heap_loop cmp (c1[h1 := c1 ! h2]) h2 holeIndex v"
      using True by (simp add: adjust_heap_def l Let_def h2_def)
    have b: "h2 < len" "len \<le> length (c1[h1 := c1 ! h2])"
      using a [of v] assms len2 h2 by simp_all
    have "mset (c1[h1 := c1 ! h2, h2 := v]) = mset (c1[h1 := v])"
      using a [of v] b by (intro mset_move_hole) simp_all
    moreover have "c1[h1 := c1 ! h2] ! k = c1 ! k" if "len \<le> k" for k
      using that a [of v] by simp
    ultimately show ?thesis
      using push_heap_loop_props [OF b, of cmp holeIndex v] a [of v] unfolding r by simp
  qed
qed

lemma queue_pop_mset:
  assumes "c \<noteq> []"
  shows "mset (queue_pop cmp c) = mset c - {#queue_top c#}"
proof (cases "length c > 1")
  case False
  then obtain x where "c = [x]" using assms by (cases c) auto
  then show ?thesis by (simp add: queue_pop_def queue_top_def)
next
  case True
  define n where "n = length c - 1"
  define r where "r = adjust_heap cmp (c[n := c ! 0]) 0 n (c ! n)"
  have n: "0 < n" "n < length c" using True by (simp_all add: n_def)
  have p: "length r = length c" "mset r = mset (c[n := c ! 0, 0 := c ! n])" "r ! n = c ! 0"
    using adjust_heap_props [of 0 n "c[n := c ! 0]" cmp "c ! n"] n by (simp_all add: r_def)
  have c0: "0 < length c" using n by arith
  have sw: "mset (c[n := c ! 0, 0 := c ! n]) = mset c"
    by (rule mset_swap [OF c0 n(2)])
  have "r \<noteq> []" using p(1) assms by auto
  then have "r = butlast r @ [last r]" by simp
  moreover have "last r = c ! 0" using p n \<open>r \<noteq> []\<close> by (simp add: last_conv_nth n_def)
  ultimately have "mset r = add_mset (c ! 0) (mset (butlast r))"
    by (metis mset.simps(2) mset_append union_mset_add_mset_right add.right_neutral mset.simps(1))
  then have "mset (butlast r) = mset c - {#c ! 0#}" using p sw by simp
  moreover have "queue_pop cmp c = butlast r" using True by (simp add: queue_pop_def r_def n_def)
  ultimately show ?thesis by (simp add: queue_top_def)
qed

lemma queue_top_in: "c \<noteq> [] \<Longrightarrow> queue_top c \<in> set c"
  by (simp add: queue_top_def)

lemma queue_push_set: "set (queue_push cmp x c) = insert x (set c)"
  using queue_push_mset [of cmp x c] by (metis mset.simps(2) mset_eq_setD list.simps(15))

lemma queue_push_distinct: "distinct (queue_push cmp x c) \<longleftrightarrow> x \<notin> set c \<and> distinct c"
  using queue_push_mset [of cmp x c] by (metis mset.simps(2) mset_eq_imp_distinct_iff distinct.simps(2))

lemma queue_pop_set:
  assumes "c \<noteq> []" "distinct c"
  shows "set (queue_pop cmp c) = set c - {queue_top c}" "distinct (queue_pop cmp c)"
proof -
  obtain x xs where c: "c = x # xs" using assms by (cases c) auto
  have "mset (queue_pop cmp c) = mset xs"
    using queue_pop_mset [OF assms(1), of cmp] by (simp add: c queue_top_def)
  then have "set (queue_pop cmp c) = set xs" "distinct (queue_pop cmp c) = distinct xs"
    by (metis mset_eq_setD, metis mset_eq_imp_distinct_iff)
  then show "set (queue_pop cmp c) = set c - {queue_top c}" "distinct (queue_pop cmp c)"
    using assms by (auto simp: c queue_top_def)
qed

lemma fold_queue_push_set: "set (fold (queue_push cmp) xs c) = set xs \<union> set c"
  by (induction xs arbitrary: c) (auto simp: queue_push_set)

lemma fold_queue_push_distinct:
  "distinct (fold (queue_push cmp) xs c) \<longleftrightarrow> distinct xs \<and> distinct c \<and> set xs \<inter> set c = {}"
  by (induction xs arbitrary: c) (auto simp: queue_push_set queue_push_distinct)

subsection \<open>Placing a statement\<close>

lemma sched_inv_place:
  assumes inv: "sched_inv stmts0 deps s" and iq: "i \<in> set (readyQueue s)"
    and st: "statements s' = set_start_cycle i (currentCycle s) (statements s)"
    and qset: "set (readyQueue s') = set (readyQueue s) - {i}"
    and qd: "distinct (readyQueue s')"
    and sc: "scheduled s' = scheduled s @ [i]"
    and same: "completedStatements s' = completedStatements s" "notReady s' = notReady s"
      "currentCycle s' = currentCycle s"
    and led: "\<And>c k. delayByCycle s' c k \<noteq> 0 \<Longrightarrow>
        delayByCycle s c k \<noteq> 0 \<or> (i \<in> set (deps ! k) \<and> c < currentCycle s + span_of s i)"
  shows "sched_inv stmts0 deps s'"
proof -
  note D = sched_invD [OF inv]
  have i: "i < length (statements s)" "start_of s i = 0" "i \<notin> set (notReady s)"
    using D(7) [OF iq] D(2) by simp_all
  have start': "start_of s' k = (if k = i then currentCycle s else start_of s k)" for k
    using i(1) by (simp add: start_of_def st start_set_start_cycle)
  have span': "span_of s' k = span_of s k" for k
    by (simp add: span_of_def st)
  have cur: "currentCycle s \<noteq> 0" using D(3) by simp
  have rel_keep: "released s' c j" if "released s c j" for c j
    using that i(2) by (auto simp: released_def start' span')
  have not_dep: "i \<notin> set (deps ! k)" if "k < length stmts0" "start_of s k \<noteq> 0" for k
    using D(11) [OF that] i(2) by (auto simp: released_def)
  show ?thesis
    unfolding sched_inv_def
  proof (intro conjI ballI allI impI)
    show "map reset_start (statements s') = map reset_start stmts0"
      using D(1) by (simp add: st)
    show "1 \<le> currentCycle s'" using D(3) by (simp add: same)
    show "distinct (readyQueue s')" by (rule qd)
    show "distinct (notReady s')" using D(5) by (simp add: same)
    show "distinct (completedStatements s')" using D(6) by (simp add: same)
  next
    fix k assume "k \<in> set (readyQueue s')"
    then have k: "k \<in> set (readyQueue s)" "k \<noteq> i" by (simp_all add: qset)
    from D(7) [OF k(1)] k(2)
    show "k < length stmts0" "start_of s' k = 0" "k \<notin> set (notReady s')"
      by (simp_all add: start' same)
    fix j assume "j \<in> set (deps ! k)"
    from rel_keep [OF D(8) [OF k(1) this]] show "released s' (currentCycle s') j"
      by (simp add: same)
  next
    fix k assume "k \<in> set (notReady s')"
    then have k: "k \<in> set (notReady s)" by (simp add: same)
    with i(3) have "k \<noteq> i" by blast
    with D(9) [OF k] show "k < length stmts0" "start_of s' k = 0"
      by (simp_all add: start')
  next
    fix k assume k: "k < length stmts0" "start_of s' k \<noteq> 0"
    have "1 \<le> start_of s' k \<and> start_of s' k \<le> currentCycle s' \<and>
        (\<forall>j\<in>set (deps ! k). released s' (start_of s' k) j)"
    proof (cases "k = i")
      case True
      have "\<forall>j\<in>set (deps ! i). released s' (currentCycle s) j"
        using D(8) [OF iq] rel_keep by blast
      with True D(3) show ?thesis by (simp add: start' same)
    next
      case False
      with k have nz: "start_of s k \<noteq> 0" by (simp add: start')
      have "\<forall>j\<in>set (deps ! k). released s' (start_of s k) j"
        using D(11) [OF k(1) nz] rel_keep by blast
      with D(10) [OF k(1) nz] False show ?thesis by (simp add: start' same)
    qed
    then show "1 \<le> start_of s' k" "start_of s' k \<le> currentCycle s'"
      "\<And>j. j \<in> set (deps ! k) \<Longrightarrow> released s' (start_of s' k) j"
      by blast+
  next
    fix k assume "k \<in> set (completedStatements s')"
    then have k: "k \<in> set (completedStatements s)" by (simp add: same)
    from D(12) [OF k] cur show "k < length stmts0" "start_of s' k \<noteq> 0"
      by (simp_all add: start')
  next
    fix k assume "k \<in> set (scheduled s')"
    then have "k \<in> set (scheduled s) \<or> k = i" by (auto simp: sc)
    then show "k < length stmts0" "start_of s' k = currentCycle s'"
      using D(13) [of k] D(7) [OF iq] by (auto simp: start' same)
  next
    fix c k assume "delayByCycle s' c k \<noteq> 0"
    from led [OF this] show "\<exists>j\<in>set (deps ! k). start_of s' j \<noteq> 0 \<and> c < start_of s' j + span_of s' j"
    proof
      assume "delayByCycle s c k \<noteq> 0"
      from D(14) [OF this] obtain j where j: "j \<in> set (deps ! k)" "start_of s j \<noteq> 0"
        "c < start_of s j + span_of s j" by blast
      then have "j \<noteq> i" using i(2) by auto
      with j show ?thesis by (intro bexI [of _ j]) (simp_all add: start' span')
    next
      assume a: "i \<in> set (deps ! k) \<and> c < currentCycle s + span_of s i"
      then show ?thesis using cur by (intro bexI [of _ i]) (simp_all add: start' span')
    qed
  qed
qed

lemma ready_read_zero:
  assumes "sched_inv stmts0 deps s" "i \<in> set (readyQueue s)"
  shows "delayByCycle s (currentCycle s) i = 0"
proof (rule ccontr)
  assume "delayByCycle s (currentCycle s) i \<noteq> 0"
  from sched_invD(14) [OF assms(1) this] obtain j where
    j: "j \<in> set (deps ! i)" "currentCycle s < start_of s j + span_of s j" by blast
  from sched_invD(8) [OF assms j(1)] j(2) show False
    by (simp add: released_def)
qed

lemma raise_delay_nonzero:
  "raise_delay c k d led c' k' \<noteq> 0 \<Longrightarrow> led c' k' \<noteq> 0 \<or> (c' = c \<and> k' = k)"
  by (auto simp: raise_delay_def split: if_splits)

lemma fold_writes:
  assumes "\<And>w led. f w led c' k' \<noteq> (0::real) \<Longrightarrow> led c' k' \<noteq> 0 \<or> (c' = c \<and> k' = g w)"
  shows "fold f ws led c' k' \<noteq> 0 \<Longrightarrow> led c' k' \<noteq> 0 \<or> (c' = c \<and> (\<exists>w \<in> set ws. k' = g w))"
proof (induction ws arbitrary: led)
  case Nil
  then show ?case by simp
next
  case (Cons w ws)
  from Cons.prems have "fold f ws (f w led) c' k' \<noteq> 0" by simp
  from Cons.IH [OF this] assms [of w led] show ?case by auto
qed

lemma schedule_combinational_fields:
  "statements (schedule_combinational uses i s) = set_start_cycle i (currentCycle s) (statements s)"
  "scheduled (schedule_combinational uses i s) = scheduled s @ [i]"
  "readyQueue (schedule_combinational uses i s) = readyQueue s"
  "completedStatements (schedule_combinational uses i s) = completedStatements s"
  "notReady (schedule_combinational uses i s) = notReady s"
  "currentCycle (schedule_combinational uses i s) = currentCycle s"
  "delayByCycle (schedule_combinational uses i s) =
     fold (\<lambda>w ledger. raise_delay (currentCycle s) (idx (statements s ! w))
                         (ledger (currentCycle s) i + delay (op (statements s ! i))) ledger)
          (uses ! i) (delayByCycle s)"
  by (simp_all add: schedule_combinational_def Let_def)

lemma schedule_physical_fields:
  "statements (schedule_physical uses i s) = set_start_cycle i (currentCycle s) (statements s)"
  "scheduled (schedule_physical uses i s) = scheduled s @ [i]"
  "readyQueue (schedule_physical uses i s) = readyQueue s"
  "completedStatements (schedule_physical uses i s) = completedStatements s"
  "notReady (schedule_physical uses i s) = notReady s"
  "currentCycle (schedule_physical uses i s) = currentCycle s"
  "delayByCycle (schedule_physical uses i s) =
     fold (\<lambda>w ledger. if limit (op (statements s ! w)) < 0
                       then raise_delay (currentCycle s + latency (op (statements s ! i)) - 1)
                              (idx (statements s ! w)) (delay (op (statements s ! i))) ledger
                       else ledger)
          (uses ! i) (delayByCycle s)"
  by (simp_all add: schedule_physical_def Let_def cong: if_cong)

lemma successor_key:
  assumes can: "canonical stmts0 deps uses" and inv: "sched_inv stmts0 deps s"
    and i: "i < length stmts0" and w: "w \<in> set (uses ! i)"
  shows "idx (statements s ! w) = w" "i \<in> set (deps ! w)"
proof -
  from canonicalD(5) [OF can i w] have w': "w < length stmts0" "i \<in> set (deps ! w)" by simp_all
  show "idx (statements s ! w) = w"
    using same_shape_nth [OF sched_invD(1) [OF inv], of w] canonicalD(3) [OF can w'(1)] by simp
  show "i \<in> set (deps ! w)" by fact
qed

lemma sched_inv_combinational:
  assumes can: "canonical stmts0 deps uses" and inv: "sched_inv stmts0 deps s"
    and iq: "i \<in> set (readyQueue s)"
    and q: "set q = set (readyQueue s) - {i}" "distinct q"
  shows "sched_inv stmts0 deps (schedule_combinational uses i (s\<lparr>readyQueue := q\<rparr>))"
proof (rule sched_inv_place [OF inv iq])
  let ?s' = "schedule_combinational uses i (s\<lparr>readyQueue := q\<rparr>)"
  let ?f = "\<lambda>w ledger. raise_delay (currentCycle s) (idx (statements s ! w))
                         (ledger (currentCycle s) i + delay (op (statements s ! i))) ledger"
  have i: "i < length stmts0" using sched_invD(7) [OF inv iq] by simp
  fix c k assume "delayByCycle ?s' c k \<noteq> 0"
  then have nz: "fold ?f (uses ! i) (delayByCycle s) c k \<noteq> 0"
    by (simp add: schedule_combinational_fields)
  have "delayByCycle s c k \<noteq> 0 \<or>
     (c = currentCycle s \<and> (\<exists>w \<in> set (uses ! i). k = idx (statements s ! w)))"
    by (rule fold_writes [where f = ?f, OF _ nz]) (rule raise_delay_nonzero)
  then show "delayByCycle s c k \<noteq> 0 \<or> (i \<in> set (deps ! k) \<and> c < currentCycle s + span_of s i)"
    using successor_key [OF can inv i] by (auto simp: span_of_def)
qed (simp_all add: schedule_combinational_fields q)

lemma sched_inv_physical:
  assumes can: "canonical stmts0 deps uses" and inv: "sched_inv stmts0 deps s"
    and iq: "i \<in> set (readyQueue s)"
    and q: "set q = set (readyQueue s) - {i}" "distinct q"
  shows "sched_inv stmts0 deps (schedule_physical uses i (s\<lparr>readyQueue := q\<rparr>))"
proof (rule sched_inv_place [OF inv iq])
  let ?s' = "schedule_physical uses i (s\<lparr>readyQueue := q\<rparr>)"
  let ?c = "currentCycle s + latency (op (statements s ! i)) - 1"
  let ?f = "\<lambda>w ledger. if limit (op (statements s ! w)) < 0
                       then raise_delay ?c (idx (statements s ! w)) (delay (op (statements s ! i))) ledger
                       else ledger"
  have i: "i < length stmts0" using sched_invD(7) [OF inv iq] by simp
  fix c k assume "delayByCycle ?s' c k \<noteq> 0"
  then have nz: "fold ?f (uses ! i) (delayByCycle s) c k \<noteq> 0"
    by (simp add: schedule_physical_fields cong: if_cong)
  have "delayByCycle s c k \<noteq> 0 \<or>
     (c = ?c \<and> (\<exists>w \<in> set (uses ! i). k = idx (statements s ! w)))"
  proof (rule fold_writes [where f = ?f, OF _ nz])
    fix w led assume "?f w led c k \<noteq> 0"
    then show "led c k \<noteq> 0 \<or> c = ?c \<and> k = idx (statements s ! w)"
      by (cases "limit (op (statements s ! w)) < 0") (auto dest: raise_delay_nonzero)
  qed
  then show "delayByCycle s c k \<noteq> 0 \<or> (i \<in> set (deps ! k) \<and> c < currentCycle s + span_of s i)"
    using successor_key [OF can inv i] by (auto simp: span_of_def)
qed (simp_all add: schedule_physical_fields q)

lemma sched_inv_push_back:
  assumes inv: "sched_inv stmts0 deps s"
    and q: "set q = set (readyQueue s)" "distinct q"
  shows "sched_inv stmts0 deps (s\<lparr>readyQueue := q\<rparr>)"
  using inv q by (simp add: sched_inv_def start_of_def span_of_def released_def)

lemma pop_and_push_back:
  assumes ne: "c \<noteq> []" and d: "distinct c"
  shows "set (queue_pop cmp c) = set c - {queue_top c}" "distinct (queue_pop cmp c)"
    "set (queue_push cmp' (queue_top c) (queue_pop cmp c)) = set c"
    "distinct (queue_push cmp' (queue_top c) (queue_pop cmp c))"
  using queue_pop_set [OF ne d, of cmp] queue_top_in [OF ne]
  by (auto simp: queue_push_set queue_push_distinct)

lemma sched_inv_drain_body:
  assumes can: "canonical stmts0 deps uses" and inv: "sched_inv stmts0 deps s"
    and ne: "readyQueue s \<noteq> []"
  shows "sched_inv stmts0 deps (fst (drain_body pr uses T s))"
proof -
  let ?i = "queue_top (readyQueue s)"
  have iq: "?i \<in> set (readyQueue s)" using ne by (rule queue_top_in)
  note P = pop_and_push_back [OF ne sched_invD(4) [OF inv]]
  show ?thesis
    using sched_inv_combinational [OF can inv iq P(1,2)] sched_inv_physical [OF can inv iq P(1,2)]
      sched_inv_push_back [OF inv P(3,4)]
    by (simp add: drain_body_def Let_def)
qed

subsection \<open>The end of a cycle, the initial state, every reachable state\<close>

lemma end_of_cycle_fields:
  "statements (end_of_cycle pr deps s) = statements s"
  "delayByCycle (end_of_cycle pr deps s) = delayByCycle s"
  "currentCycle (end_of_cycle pr deps s) = currentCycle s + 1"
  "scheduled (end_of_cycle pr deps s) = []"
  "completedStatements (end_of_cycle pr deps s) = List.union (scheduled s) (completedStatements s)"
  "readyQueue (end_of_cycle pr deps s) =
     fold (queue_push (comparator pr (statements s)))
       (filter (isReady deps (s\<lparr>completedStatements := List.union (scheduled s) (completedStatements s)\<rparr>))
          (notReady s))
       (readyQueue s)"
  "notReady (end_of_cycle pr deps s) =
     filter (\<lambda>i. \<not> isReady deps (s\<lparr>completedStatements := List.union (scheduled s) (completedStatements s)\<rparr>) i)
       (notReady s)"
  by (simp_all add: end_of_cycle_def Let_def List.union_def)

lemma isReady_iff:
  "isReady deps (s\<lparr>completedStatements := cs\<rparr>) i \<longleftrightarrow>
     (\<forall>j \<in> set (deps ! i). j \<in> set cs \<and> start_of s j + span_of s j \<le> currentCycle s + 1)"
  by (auto simp: isReady_def list_all_iff start_of_def span_of_def)

lemma start_of_end_of_cycle [simp]: "start_of (end_of_cycle pr deps s) = start_of s"
  by (simp add: fun_eq_iff start_of_def end_of_cycle_fields)

lemma span_of_end_of_cycle [simp]: "span_of (end_of_cycle pr deps s) = span_of s"
  by (simp add: fun_eq_iff span_of_def end_of_cycle_fields)

lemma released_end_of_cycle [simp]: "released (end_of_cycle pr deps s) = released s"
  by (simp add: fun_eq_iff released_def)

lemma released_mono: "released s c j \<Longrightarrow> c \<le> c' \<Longrightarrow> released s c' j"
  by (simp add: released_def)

lemma sched_inv_end_of_cycle:
  assumes inv: "sched_inv stmts0 deps s"
  shows "sched_inv stmts0 deps (end_of_cycle pr deps s)"
proof -
  note D = sched_invD [OF inv]
  note F = end_of_cycle_fields
  let ?cs = "List.union (scheduled s) (completedStatements s)"
  let ?s' = "end_of_cycle pr deps s"
  have done_placed: "k < length stmts0 \<and> start_of s k \<noteq> 0" if "k \<in> set ?cs" for k
    using that D(12) [of k] D(13) [of k] D(3) by auto
  show ?thesis
    unfolding sched_inv_def
  proof (intro conjI ballI allI impI)
    show "map reset_start (statements ?s') = map reset_start stmts0"
      using D(1) by (simp add: F)
    show "1 \<le> currentCycle ?s'" using D(3) by (simp add: F)
    show "distinct (readyQueue ?s')"
      using D(4) D(5) D(7) by (auto simp: F fold_queue_push_distinct)
    show "distinct (notReady ?s')" using D(5) by (simp add: F)
    show "distinct (completedStatements ?s')" using D(6) by (simp add: F)
  next
    fix k assume "k \<in> set (readyQueue ?s')"
    then consider (old) "k \<in> set (readyQueue s)"
      | (new) "k \<in> set (notReady s)" "isReady deps (s\<lparr>completedStatements := ?cs\<rparr>) k"
      by (auto simp: F fold_queue_push_set)
    then have "k < length stmts0 \<and> start_of s k = 0 \<and> k \<notin> set (notReady ?s') \<and>
        (\<forall>j \<in> set (deps ! k). released s (currentCycle s + 1) j)"
    proof cases
      case old
      have "\<forall>j \<in> set (deps ! k). released s (currentCycle s + 1) j"
        using D(8) [OF old] released_mono [of s "currentCycle s" _ "currentCycle s + 1"] by simp
      with D(7) [OF old] show ?thesis by (simp add: F)
    next
      case new
      have "\<forall>j \<in> set (deps ! k). released s (currentCycle s + 1) j"
        using new(2) done_placed by (auto simp: isReady_iff released_def)
      with D(9) [OF new(1)] new(2) show ?thesis by (simp add: F)
    qed
    then show "k < length stmts0" "start_of ?s' k = 0" "k \<notin> set (notReady ?s')"
      "\<And>j. j \<in> set (deps ! k) \<Longrightarrow> released ?s' (currentCycle ?s') j"
      by (simp_all add: F)
  next
    fix k assume "k \<in> set (notReady ?s')"
    then have "k \<in> set (notReady s)" by (simp add: F)
    from D(9) [OF this] show "k < length stmts0" "start_of ?s' k = 0" by simp_all
  next
    fix k assume k: "k < length stmts0" "start_of ?s' k \<noteq> 0"
    then have nz: "start_of s k \<noteq> 0" by simp
    from D(10) [OF k(1) nz] show "1 \<le> start_of ?s' k" "start_of ?s' k \<le> currentCycle ?s'"
      by (simp_all add: F)
    fix j assume "j \<in> set (deps ! k)"
    from D(11) [OF k(1) nz this] show "released ?s' (start_of ?s' k) j" by simp
  next
    fix k assume "k \<in> set (completedStatements ?s')"
    then have "k \<in> set ?cs" by (simp add: F)
    from done_placed [OF this] show "k < length stmts0" "start_of ?s' k \<noteq> 0" by simp_all
  next
    fix k assume "k \<in> set (scheduled ?s')"
    then show "k < length stmts0" "start_of ?s' k = currentCycle ?s'" by (simp_all add: F)
  next
    fix c k assume "delayByCycle ?s' c k \<noteq> 0"
    then have "delayByCycle s c k \<noteq> 0" by (simp add: F)
    from D(14) [OF this]
    show "\<exists>j\<in>set (deps ! k). start_of ?s' j \<noteq> 0 \<and> c < start_of ?s' j + span_of ?s' j"
      by simp
  qed
qed

lemma start_of_reset [simp]: "i < length stmts \<Longrightarrow> start_cycle (map reset_start stmts ! i) = 0"
  by (simp add: reset_start_def)

lemma sched_inv_init:
  assumes can: "canonical stmts0 deps uses"
  shows "sched_inv stmts0 deps (init_state stmts0 deps)"
proof -
  have "\<And>i j. i < length stmts0 \<Longrightarrow> deps ! i = [] \<Longrightarrow> j \<in> set (deps ! i) \<Longrightarrow> False"
    by simp
  then show ?thesis
    by (auto simp: sched_inv_def init_state_def start_of_def reset_start_def
          fold_queue_push_set fold_queue_push_distinct)
qed

lemma sched_inv_outer:
  "sched_inv stmts0 deps s \<Longrightarrow> sched_inv stmts0 deps (s\<lparr>scheduled := []\<rparr>)"
  by (simp add: sched_inv_def start_of_def span_of_def released_def)

lemma sched_inv_step:
  assumes can: "canonical stmts0 deps uses" and inv: "sched_inv stmts0 deps (snd cfg)"
  shows "sched_inv stmts0 deps (snd (step pr deps uses T cfg))"
proof (cases cfg)
  case (Pair pc s)
  with inv have inv': "sched_inv stmts0 deps s" by simp
  show ?thesis
  proof (cases pc)
    case Outer
    then show ?thesis using sched_inv_outer [OF inv'] inv' by (simp add: step_def Pair)
  next
    case Drain
    show ?thesis
    proof (cases "readyQueue s = []")
      case True
      then show ?thesis using inv' by (simp add: step_def Pair Drain)
    next
      case False
      from sched_inv_drain_body [OF can inv' False, of pr T] False show ?thesis
        by (cases "drain_body pr uses T s") (simp add: step_def Pair Drain)
    qed
  next
    case Commit
    then show ?thesis using sched_inv_end_of_cycle [OF inv'] by (simp add: step_def Pair)
  qed
qed

lemma sched_inv_reachable:
  assumes can: "canonical stmts0 deps uses"
  shows "sched_inv stmts0 deps (snd ((step pr deps uses T ^^ k) (Outer, init_state stmts0 deps)))"
proof (induction k)
  case 0
  show ?case using sched_inv_init [OF can] by simp
next
  case (Suc k)
  from sched_inv_step [OF can Suc] show ?case by simp
qed

subsection \<open>Resource usage\<close>

text \<open>
  All placed statements start no later than the current cycle, so a statement busy in a
  later cycle is busy in the current one: the count the code takes at the current cycle
  bounds the count at every cycle of the new busy interval.
\<close>

lemma finite_busy [simp]: "finite (busy s k c)"
  by (simp add: busy_def)

lemma usage_bounds_busy:
  assumes "0 \<le> limit k"
  shows "int (card (busy s k c)) \<le> calculateResourceUsage (statements s) c k"
proof -
  let ?P = "\<lambda>stmt. start_cycle stmt \<noteq> 0 \<and> name (op stmt) = name k \<and>
              c \<ge> start_cycle stmt \<and> c < start_cycle stmt + latency (op stmt)"
  have "busy s k c \<subseteq> {i. i < length (statements s) \<and> ?P (statements s ! i)}"
    by (auto simp: busy_def start_of_def)
  then have "card (busy s k c) \<le> card {i. i < length (statements s) \<and> ?P (statements s ! i)}"
    by (intro card_mono) simp_all
  also have "\<dots> = length (filter ?P (statements s))"
    by (simp add: length_filter_conv_card)
  finally show ?thesis using assms by (simp add: calculateResourceUsage_def)
qed

lemma res_inv_place:
  assumes res: "res_inv s" and inv: "sched_inv stmts0 deps s" and iq: "i \<in> set (readyQueue s)"
    and st: "statements s' = set_start_cycle i (currentCycle s) (statements s)"
    and ok: "limit (op (statements s ! i)) < 0 \<or>
       calculateResourceUsage (statements s) (currentCycle s) (op (statements s ! i))
         < limit (op (statements s ! i))"
  shows "res_inv s'"
  unfolding res_inv_def
proof (intro allI impI)
  fix k :: Op and c :: int assume k: "0 \<le> limit k"
  note D = sched_invD [OF inv]
  have i: "i < length (statements s)" "start_of s i = 0"
    using D(7) [OF iq] D(2) by simp_all
  have start': "start_of s' j = (if j = i then currentCycle s else start_of s j)" for j
    using i(1) by (simp add: start_of_def st start_set_start_cycle)
  have sub: "busy s' k c \<subseteq> insert i (busy s k c)"
    by (auto simp: busy_def start' st split: if_splits)
  show "int (card (busy s' k c)) \<le> limit k"
  proof (cases "i \<in> busy s' k c")
    case False
    with sub have "busy s' k c \<subseteq> busy s k c" by blast
    then have "card (busy s' k c) \<le> card (busy s k c)" by (intro card_mono) simp_all
    with res [unfolded res_inv_def, rule_format, OF k, of c] show ?thesis by linarith
  next
    case True
    then have ki: "op (statements s ! i) = k" and c: "currentCycle s \<le> c"
      by (simp_all add: busy_def start' st)
    from ok ki k have less: "calculateResourceUsage (statements s) (currentCycle s) k < limit k"
      by auto
    have "busy s k c \<subseteq> busy s k (currentCycle s)"
    proof
      fix j assume j: "j \<in> busy s k c"
      then have "j < length stmts0" "start_of s j \<noteq> 0" by (simp_all add: busy_def D(2))
      from D(10) [OF this] j c show "j \<in> busy s k (currentCycle s)"
        by (simp add: busy_def)
    qed
    then have "card (busy s k c) \<le> card (busy s k (currentCycle s))"
      by (intro card_mono) simp_all
    moreover have "card (busy s' k c) \<le> Suc (card (busy s k c))"
      using card_mono [OF _ sub] by (simp add: card_insert_if split: if_splits)
    moreover have "int (card (busy s k (currentCycle s)))
        \<le> calculateResourceUsage (statements s) (currentCycle s) k"
      by (rule usage_bounds_busy [OF k])
    ultimately show ?thesis using less by linarith
  qed
qed

lemma res_inv_same_statements:
  "res_inv s \<Longrightarrow> statements s' = statements s \<Longrightarrow> res_inv s'"
  by (simp add: res_inv_def busy_def start_of_def)

lemma res_inv_drain_body:
  assumes res: "res_inv s" and inv: "sched_inv stmts0 deps s" and ne: "readyQueue s \<noteq> []"
  shows "res_inv (fst (drain_body pr uses T s))"
proof -
  let ?i = "queue_top (readyQueue s)"
  let ?s = "s\<lparr>readyQueue := queue_pop (comparator pr (statements s)) (readyQueue s)\<rparr>"
  have iq: "?i \<in> set (readyQueue s)" using ne by (rule queue_top_in)
  have comb: "res_inv (schedule_combinational uses ?i ?s)"
    if "limit (op (statements s ! ?i)) < 0"
    by (rule res_inv_place [OF res inv iq]) (simp_all add: schedule_combinational_fields that)
  have phys: "res_inv (schedule_physical uses ?i ?s)"
    if "calculateResourceUsage (statements s) (currentCycle s) (op (statements s ! ?i))
         < limit (op (statements s ! ?i))"
    by (rule res_inv_place [OF res inv iq]) (simp_all add: schedule_physical_fields that)
  have pushed: "res_inv (s\<lparr>readyQueue := q\<rparr>)" for q
    by (rule res_inv_same_statements [OF res]) simp
  show ?thesis
    using comb phys pushed by (simp add: drain_body_def Let_def)
qed

lemma res_inv_step:
  assumes inv: "sched_inv stmts0 deps (snd cfg)" and res: "res_inv (snd cfg)"
  shows "res_inv (snd (step pr deps uses T cfg))"
proof (cases cfg)
  case (Pair pc s)
  with inv res have inv': "sched_inv stmts0 deps s" and res': "res_inv s" by simp_all
  show ?thesis
  proof (cases pc)
    case Outer
    then show ?thesis using res_inv_same_statements [OF res'] res' by (simp add: step_def Pair)
  next
    case Drain
    show ?thesis
    proof (cases "readyQueue s = []")
      case True
      then show ?thesis using res' by (simp add: step_def Pair Drain)
    next
      case False
      from res_inv_drain_body [OF res' inv' False, of pr uses T] False show ?thesis
        by (cases "drain_body pr uses T s") (simp add: step_def Pair Drain)
    qed
  next
    case Commit
    then show ?thesis
      using res_inv_same_statements [OF res', of "end_of_cycle pr deps s"]
      by (simp add: step_def Pair end_of_cycle_fields)
  qed
qed

lemma res_inv_reachable:
  assumes can: "canonical stmts0 deps uses"
  shows "res_inv (snd ((step pr deps uses T ^^ k) (Outer, init_state stmts0 deps)))"
proof (induction k)
  case 0
  have "busy (init_state stmts0 deps) k c = {}" for k c
    by (auto simp: busy_def init_state_def start_of_def reset_start_def)
  then show ?case by (simp add: res_inv_def)
next
  case (Suc k)
  from res_inv_step [OF sched_inv_reachable [OF can] Suc] show ?case by simp
qed

subsection \<open>The state the scheduler returns\<close>

lemma run_reaches:
  "run pr deps uses T fuel cfg = Some s \<Longrightarrow>
     \<exists>k. (step pr deps uses T ^^ k) cfg = (Outer, s) \<and> finished (Outer, s)"
proof (induction fuel arbitrary: cfg)
  case 0
  then have "finished cfg" "snd cfg = s" by (simp_all split: if_splits)
  then have "(step pr deps uses T ^^ 0) cfg = (Outer, s) \<and> finished (Outer, s)"
    by (cases cfg) (simp add: finished_def)
  then show ?case by blast
next
  case (Suc fuel)
  show ?case
  proof (cases "finished cfg")
    case True
    with Suc.prems have "snd cfg = s" by simp
    with True have "(step pr deps uses T ^^ 0) cfg = (Outer, s) \<and> finished (Outer, s)"
      by (cases cfg) (simp add: finished_def)
    then show ?thesis by blast
  next
    case False
    with Suc.prems have "run pr deps uses T fuel (step pr deps uses T cfg) = Some s" by simp
    from Suc.IH [OF this] obtain k where
      "(step pr deps uses T ^^ k) (step pr deps uses T cfg) = (Outer, s) \<and> finished (Outer, s)" ..
    then have "(step pr deps uses T ^^ Suc k) cfg = (Outer, s) \<and> finished (Outer, s)"
      by (simp add: funpow_swap1)
    then show ?thesis by blast
  qed
qed

lemma finished_all_placed:
  assumes inv: "sched_inv stmts0 deps s" and fin: "finished (Outer, s)" and i: "i < length stmts0"
  shows "i \<in> set (completedStatements s)" "start_of s i \<noteq> 0"
proof -
  note D = sched_invD [OF inv]
  have sub: "set (completedStatements s) \<subseteq> {..<length stmts0}"
    using D(12) by auto
  have "length stmts0 \<le> card (set (completedStatements s))"
    using fin D(2) D(6) by (simp add: finished_def distinct_card)
  moreover have "card (set (completedStatements s)) \<le> card {..<length stmts0}"
    using sub by (intro card_mono) simp_all
  ultimately have "card (set (completedStatements s)) = card {..<length stmts0}" by simp
  with sub have "set (completedStatements s) = {..<length stmts0}"
    by (intro card_subset_eq) simp_all
  with i show "i \<in> set (completedStatements s)" by simp
  from D(12) [OF this] show "start_of s i \<noteq> 0" by simp
qed

lemma scheduleByList_final:
  assumes can: "canonical stmts deps uses"
    and run: "scheduleByList fuel stmts deps uses T = Some (ss, L)"
  obtains s where "ss = statements s" "L = finalLatency (statements s)"
    "sched_inv stmts deps s" "res_inv s" "finished (Outer, s)"
proof -
  from run obtain s where
    s: "run (map start_cycle stmts) deps uses T fuel (Outer, init_state stmts deps) = Some s"
    and ss: "ss = statements s" "L = finalLatency (statements s)"
    by (auto simp: scheduleByList_def)
  from run_reaches [OF s] obtain k where
    k: "(step (map start_cycle stmts) deps uses T ^^ k) (Outer, init_state stmts deps) = (Outer, s)"
    and fin: "finished (Outer, s)" by blast
  from sched_inv_reachable [OF can, where pr = "map start_cycle stmts" and T = T and k = k] k
  have "sched_inv stmts deps s" by simp
  moreover from res_inv_reachable [OF can, where pr = "map start_cycle stmts" and T = T and k = k] k
  have "res_inv s" by simp
  ultimately show thesis using that ss fin by blast
qed

section \<open>Invariants of the final schedule\<close>

text \<open>
  Claim C6 (precedence).  When the list scheduler returns, every dependency edge \<open>j \<rightarrow> i\<close>
  satisfies \<open>start_cycle[i] \<ge> start_cycle[j] + max(latency[j], 1) - [latency[j] = 0]\<close>:
  no successor starts before its predecessor completes.  The second bound of the theorem is
  the one the code keeps: the same without the last term, for every predecessor.
\<close>

theorem precedence_of_final_schedule:
  assumes "canonical stmts deps uses"
    and "scheduleByList fuel stmts deps uses T = Some (ss, L)"
  shows "\<forall>i < length ss. \<forall>j \<in> set (deps ! i).
           start_cycle (ss ! j) + max (latency (op (ss ! j))) 1
             - (if latency (op (ss ! j)) = 0 then 1 else 0) \<le> start_cycle (ss ! i) \<and>
           start_cycle (ss ! j) + max (latency (op (ss ! j))) 1 \<le> start_cycle (ss ! i)"
proof (intro allI impI ballI)
  fix i j assume i: "i < length ss" and j: "j \<in> set (deps ! i)"
  from scheduleByList_final [OF assms] obtain s where s: "ss = statements s"
    "sched_inv stmts deps s" "finished (Outer, s)" by metis
  note D = sched_invD [OF s(2)]
  from i have i': "i < length stmts" by (simp add: s(1) D(2))
  from finished_all_placed(2) [OF s(2) s(3) i'] have "start_of s i \<noteq> 0" .
  from D(11) [OF i' this j] have "start_of s j + span_of s j \<le> start_of s i"
    by (simp add: released_def)
  then show "start_cycle (ss ! j) + max (latency (op (ss ! j))) 1
             - (if latency (op (ss ! j)) = 0 then 1 else 0) \<le> start_cycle (ss ! i) \<and>
           start_cycle (ss ! j) + max (latency (op (ss ! j))) 1 \<le> start_cycle (ss ! i)"
    unfolding s(1) start_of_def span_of_def by (cases "latency (op (statements s ! j)) = 0") simp_all
qed

theorem precedence_of_final_schedule_witness:
  "canonical fan_in fan_in_deps fan_in_uses \<and>
   scheduleByList 30 fan_in fan_in_deps fan_in_uses 1 = Some (fan_in_scheduled, 7) \<and>
   2 < length fan_in_scheduled \<and> 1 \<in> set (fan_in_deps ! 2) \<and>
   start_cycle (fan_in_scheduled ! 1) + max (latency (op (fan_in_scheduled ! 1))) 1
     - (if latency (op (fan_in_scheduled ! 1)) = 0 then 1 else 0)
     \<le> start_cycle (fan_in_scheduled ! 2) \<and>
   start_cycle (fan_in_scheduled ! 1) + max (latency (op (fan_in_scheduled ! 1))) 1
     \<le> start_cycle (fan_in_scheduled ! 2)"
proof -
  have c: "canonical fan_in fan_in_deps fan_in_uses" by code_simp
  have r: "scheduleByList 30 fan_in fan_in_deps fan_in_uses 1 = Some (fan_in_scheduled, 7)"
    by code_simp
  have i: "2 < length fan_in_scheduled" by code_simp
  have j: "1 \<in> set (fan_in_deps ! 2)" by code_simp
  from precedence_of_final_schedule [OF c r, rule_format, OF i j] c r i j
  show ?thesis by blast
qed

text \<open>
  Claim C5 (resource).  When the list scheduler returns, for every operation kind \<open>k\<close> with
  \<open>limit k \<ge> 0\<close> and every cycle \<open>c\<close>, the number of statements of kind \<open>k\<close> whose busy
  interval \<open>[start_cycle, start_cycle + latency)\<close> contains \<open>c\<close> is at most \<open>limit k\<close>.  The
  code counts the statements whose operation has the same name, which are at least those of
  the same kind.
\<close>

theorem resource_limit_of_final_schedule:
  assumes "canonical stmts deps uses"
    and "scheduleByList fuel stmts deps uses T = Some (ss, L)"
  shows "\<forall>k c. 0 \<le> limit k \<longrightarrow> int (busy_count ss k c) \<le> limit k"
proof (intro allI impI)
  fix k :: Op and c :: int assume k: "0 \<le> limit k"
  from scheduleByList_final [OF assms] obtain s where s: "ss = statements s"
    "sched_inv stmts deps s" "res_inv s" "finished (Outer, s)" by metis
  note D = sched_invD [OF s(2)]
  have "{i. i < length ss \<and> op (ss ! i) = k \<and> start_cycle (ss ! i) \<le> c \<and>
            c < start_cycle (ss ! i) + latency (op (ss ! i))} = busy s k c"
    using finished_all_placed(2) [OF s(2) s(4)]
    by (auto simp: busy_def s(1) D(2) start_of_def)
  then have "busy_count ss k c = card (busy s k c)"
    by (simp add: busy_count_def length_filter_conv_card)
  with s(3) k show "int (busy_count ss k c) \<le> limit k"
    by (simp add: res_inv_def)
qed

theorem resource_limit_of_final_schedule_witness:
  "canonical four_mul four_mul_deps four_mul_deps \<and>
   scheduleByList 30 four_mul four_mul_deps four_mul_deps 1 = Some (four_mul_scheduled, 2) \<and>
   0 \<le> limit (unit_op ''MUL'' 1 0 2) \<and>
   busy_count four_mul_scheduled (unit_op ''MUL'' 1 0 2) 1 = 2 \<and>
   int (busy_count four_mul_scheduled (unit_op ''MUL'' 1 0 2) 1) \<le> limit (unit_op ''MUL'' 1 0 2)"
proof -
  have c: "canonical four_mul four_mul_deps four_mul_deps" by code_simp
  have r: "scheduleByList 30 four_mul four_mul_deps four_mul_deps 1 = Some (four_mul_scheduled, 2)"
    by code_simp
  have k: "0 \<le> limit (unit_op ''MUL'' 1 0 2)" by code_simp
  have n: "busy_count four_mul_scheduled (unit_op ''MUL'' 1 0 2) 1 = 2" by code_simp
  from resource_limit_of_final_schedule [OF c r, rule_format, OF k, of 1] c r k n
  show ?thesis by blast
qed

section \<open>The delay ledger\<close>

lemma clear_ledger_fields:
  "statements (clear_ledger s) = statements s"
  "readyQueue (clear_ledger s) = readyQueue s"
  "currentCycle (clear_ledger s) = currentCycle s"
  "delayByCycle (clear_ledger s) = (\<lambda>cycle i. 0)"
  by (simp_all add: clear_ledger_def)





section \<open>Scenarios evaluated on the code\<close>

text \<open>
  Claim C1 (combinational chain \<open>A \<rightarrow> B \<rightarrow> C\<close>, every op with latency 0, delay 0.3 and limit
  -1: for clock period 1.0 all three statements share cycle 1 and the latency is 1).  The
  code does not produce this schedule.  When \<open>A\<close> is placed, the delay accumulated so far
  is written into the ledger entry of \<open>B\<close> for the same cycle, for \<open>B\<close> to be tested against
  the clock period in that cycle; but \<open>B\<close> is moved to the ready queue only by the
  promotion that follows the inner loop of the cycle, and the test
  \<^verbatim>\<open>start_cycle + max(latency, 1) > currentCycle + 1\<close> of that promotion counts the
  zero-latency \<open>A\<close> as one cycle.  So \<open>B\<close> is popped in cycle 2 at the earliest and \<open>C\<close> in
  cycle 3: with the ALAP priorities 1, 2, 3 the list scheduler returns the starts 1, 2, 3
  and latency 3, where the claim has 1, 1, 1 and latency 1.
\<close>

theorem chain_takes_three_cycles:
  "scheduleByList 30 chain_123 chain_deps chain_uses 1 = Some (chain_123, 3) \<and>
   map start_cycle chain_123 = [1, 2, 3]"
  by code_simp

text \<open>
  The whole pipeline on the same chain gives the starts 1, 2, 3 and latency 3 as well, and
  so does clock period 0.5, for which the chain is to take the cycles 1, 1, 2.
\<close>

lemma chain_schedule_for_both_periods:
  "schedule 30 chain [] 1 chain_deps chain_uses = Inr (Some (chain_123, 3)) \<and>
   schedule 30 chain [] (1 / 2) chain_deps chain_uses = Inr (Some (chain_123, 3)) \<and>
   scheduleByList 30 chain_123 chain_deps chain_uses (1 / 2) = Some (chain_123, 3)"
  by code_simp

text \<open>
  Claim C3 (after the ALAP pass the minimum start cycle is 1).  \<^verbatim>\<open>earliestCycle\<close> is lowered
  only in the branch for statements that have successors; a sink never lowers it.  For a
  graph of one statement with latency 2 the ASAP latency is 2, the ALAP start is 1,
  \<^verbatim>\<open>earliestCycle\<close> stays 2, and the shift by \<open>earliestCycle - 1\<close> leaves start cycle 0.
\<close>

theorem alap_shift_misses_sink:
  "scheduleASAP (single_div 0) [[]] = (single_div 1, 2) \<and>
   scheduleALAP (single_div 1) [[]] 2 = (single_div 0, 1) \<and>
   map start_cycle (fst (scheduleALAP (single_div 1) [[]] 2)) = [0]"
  by code_simp

text \<open>
  Claim C7 (after canonicalization every dependency index is below the index of its
  statement).  The renumbering reads \<^verbatim>\<open>reorderedStatements[dep]->idx\<close>, which is \<open>dep\<close>
  itself, since position \<open>dep\<close> of the reordered vector has just been given the index
  \<open>dep\<close>: the adjacency rows are moved to their new positions but their entries keep the
  old numbering.  For two statements of which the first consumes the second, the sorted
  order is \<open>[1, 0]\<close> and the new statement 1 is left depending on index 1, itself.
\<close>

theorem reorder_keeps_old_indices:
  "\<not> validateTopologicalOrder swapped_pair [[1], []] \<and>
   reorderToTopological swapped_pair [[1], []] [[], [0]]
     = Inr (swapped_pair_sorted, [[], [1]], [[0], []])"
  by code_simp

section \<open>The ASAP pass\<close>

lemma fold_max_is_Max:
  fixes a :: int
  shows "fold (\<lambda>j acc. max acc (f j)) js a = Max (insert a (f ` set js))"
proof -
  let ?r = "fold (\<lambda>j acc. max acc (f j)) js a"
  have mem: "fold (\<lambda>j acc. max acc (f j)) js a \<in> insert a (f ` set js)" for a
    by (induction js arbitrary: a) (auto simp: max_def)
  have ub: "a \<le> fold (\<lambda>j acc. max acc (f j)) js a \<and>
            (\<forall>j \<in> set js. f j \<le> fold (\<lambda>j acc. max acc (f j)) js a)" for a
  proof (induction js arbitrary: a)
    case Nil
    then show ?case by simp
  next
    case (Cons j js)
    from Cons [of "max a (f j)"] show ?case by auto
  qed
  show ?thesis
    by (rule Max_eqI [symmetric]) (use mem ub in auto)
qed

lemma set_start_cycle_twice [simp]:
  "set_start_cycle k x (set_start_cycle k y ss) = set_start_cycle k x ss"
  by (cases "k < length ss") (simp_all add: set_start_cycle_def list_update_beyond not_less)

lemma asap_pred_fold:
  assumes "k < length ss" "k \<notin> set js"
  shows "fold (asap_pred k) js ss =
           set_start_cycle k
             (fold (\<lambda>j acc. max acc (start_cycle (ss ! j) + max (latency (op (ss ! j)) - 1) 0 + 1))
                   js (start_cycle (ss ! k))) ss"
  using assms
proof (induction js arbitrary: ss)
  case Nil
  then show ?case by (simp add: set_start_cycle_def)
next
  case (Cons j js)
  let ?c = "\<lambda>ss j. start_cycle (ss ! j) + max (latency (op (ss ! j)) - 1) 0 + 1"
  let ?ss1 = "set_start_cycle k (max (start_cycle (ss ! k)) (?c ss j)) ss"
  have one: "asap_pred k j ss = ?ss1" by (simp add: asap_pred_def Let_def)
  have same: "?c ?ss1 j' = ?c ss j'" if "j' \<in> set js" for j'
  proof -
    from that Cons.prems(2) have "j' \<noteq> k" by auto
    then show ?thesis by simp
  qed
  have cong: "fold (\<lambda>j acc. max acc (?c ?ss1 j)) js a = fold (\<lambda>j acc. max acc (?c ss j)) js a"
    for a
    by (rule fold_cong) (use same in auto)
  have first: "start_cycle (?ss1 ! k) = max (start_cycle (ss ! k)) (?c ss j)"
    using Cons.prems(1) by (simp add: start_set_start_cycle)
  have "fold (asap_pred k) js ?ss1 =
          set_start_cycle k (fold (\<lambda>j acc. max acc (?c ?ss1 j)) js (start_cycle (?ss1 ! k))) ?ss1"
    using Cons.prems by (intro Cons.IH) simp_all
  then show ?case by (simp only: one fold_simps cong first set_start_cycle_twice o_apply)
qed

lemma asap_prefix:
  assumes can: "canonical stmts deps uses"
  shows "k \<le> length stmts \<Longrightarrow>
     fold (asap_stmt deps) [0..<k] (map reset_start stmts, 0) = (ss, m) \<Longrightarrow>
     map reset_start ss = map reset_start stmts \<and>
     (\<forall>i<k. 1 \<le> start_cycle (ss ! i) \<and>
        start_cycle (ss ! i) =
          (if deps ! i = [] then 1
           else Max ((\<lambda>j. start_cycle (ss ! j) + max (latency (op (ss ! j)) - 1) 0 + 1)
                       ` set (deps ! i)))) \<and>
     (\<forall>i. k \<le> i \<longrightarrow> i < length stmts \<longrightarrow> start_cycle (ss ! i) = 0) \<and>
     m = Max (insert 0 ((\<lambda>i. start_cycle (ss ! i) + max (latency (op (ss ! i)) - 1) 0) ` {..<k}))"
proof (induction k arbitrary: ss m)
  case 0
  then show ?case by (auto simp: reset_start_def)
next
  case (Suc k)
  let ?C = "\<lambda>ss j. start_cycle (ss ! j) + max (latency (op (ss ! j)) - 1) 0 + 1"
  let ?G = "\<lambda>ss i. start_cycle (ss ! i) + max (latency (op (ss ! i)) - 1) 0"
  obtain ss0 m0 where prev: "fold (asap_stmt deps) [0..<k] (map reset_start stmts, 0) = (ss0, m0)"
    by (cases "fold (asap_stmt deps) [0..<k] (map reset_start stmts, 0)")
  from Suc.prems(1) have k: "k < length stmts" by simp
  have ih: "map reset_start ss0 = map reset_start stmts \<and>
     (\<forall>i<k. 1 \<le> start_cycle (ss0 ! i) \<and>
        start_cycle (ss0 ! i) = (if deps ! i = [] then 1 else Max (?C ss0 ` set (deps ! i)))) \<and>
     (\<forall>i. k \<le> i \<longrightarrow> i < length stmts \<longrightarrow> start_cycle (ss0 ! i) = 0) \<and>
     m0 = Max (insert 0 (?G ss0 ` {..<k}))"
    by (rule Suc.IH [OF _ prev]) (use k in simp)
  from ih have shape0: "map reset_start ss0 = map reset_start stmts" by blast
  from ih have done0: "\<And>i. i < k \<Longrightarrow> 1 \<le> start_cycle (ss0 ! i)" by blast
  from ih have rec0: "\<And>i. i < k \<Longrightarrow> start_cycle (ss0 ! i) =
          (if deps ! i = [] then 1 else Max (?C ss0 ` set (deps ! i)))" by blast
  from ih have todo0: "\<And>i. k \<le> i \<Longrightarrow> i < length stmts \<Longrightarrow> start_cycle (ss0 ! i) = 0"
    by blast
  from ih have m0: "m0 = Max (insert 0 (?G ss0 ` {..<k}))" by blast
  have len0: "length ss0 = length stmts" using shape0 map_eq_imp_length_eq by blast
  have idxk: "idx (ss0 ! k) = k"
    using same_shape_nth [OF shape0, of k] canonicalD(3) [OF can k] by simp
  have below: "j < k" if "j \<in> set (deps ! k)" for j
    using canonicalD(4) [OF can k that] by simp
  define v where "v = (if deps ! k = [] then 1 else Max (?C ss0 ` set (deps ! k)))"
  have v1: "1 \<le> v"
  proof (cases "deps ! k = []")
    case True
    then show ?thesis by (simp add: v_def)
  next
    case False
    then obtain j where j: "j \<in> set (deps ! k)" by (cases "deps ! k") auto
    have "1 \<le> ?C ss0 j" using done0 [OF below [OF j]] by simp
    also have "\<dots> \<le> Max (?C ss0 ` set (deps ! k))" using j by (intro Max_ge) simp_all
    finally show ?thesis using False by (simp add: v_def)
  qed
  have placed: "(if deps ! idx (ss0 ! k) = [] then set_start_cycle k 1 ss0
                 else fold (asap_pred k) (deps ! idx (ss0 ! k)) ss0) = set_start_cycle k v ss0"
  proof (cases "deps ! k = []")
    case True
    then show ?thesis by (simp add: idxk v_def)
  next
    case False
    have notin: "k \<notin> set (deps ! k)" using below by blast
    have pos: "0 \<le> Max (?C ss0 ` set (deps ! k))"
      using v1 False by (simp add: v_def)
    have "fold (\<lambda>j acc. max acc (?C ss0 j)) (deps ! k) (start_cycle (ss0 ! k))
            = Max (insert 0 (?C ss0 ` set (deps ! k)))"
      using todo0 [OF le_refl k] by (simp add: fold_max_is_Max)
    also have "\<dots> = Max (?C ss0 ` set (deps ! k))"
      using False pos by (simp add: max_def)
    finally show ?thesis
      using False asap_pred_fold [OF _ notin, of ss0] k len0 by (simp add: idxk v_def)
  qed
  let ?ss = "set_start_cycle k v ss0"
  have e1: "asap_stmt deps k (ss0, m0) = (ss, m)" using Suc.prems(2) prev by simp
  have e2: "asap_stmt deps k (ss0, m0) = (?ss, max m0 (?G ?ss k))"
    by (simp add: asap_stmt_def Let_def placed)
  have "(ss, m) = (?ss, max m0 (?G ?ss k))" unfolding e1 [symmetric] by (rule e2)
  then have res: "ss = ?ss" "m = max m0 (?G ?ss k)" by blast+
  have startk: "start_cycle (?ss ! k) = v" using k len0 by (simp add: start_set_start_cycle)
  have Csame: "?C ?ss j = ?C ss0 j" if "j \<noteq> k" for j using that by simp
  have Gsame: "?G ?ss i = ?G ss0 i" if "i \<noteq> k" for i using that by simp
  have img: "?C ?ss ` set (deps ! i) = ?C ss0 ` set (deps ! i)" if "i \<le> k" for i
  proof (rule image_cong [OF refl])
    fix j assume "j \<in> set (deps ! i)"
    with canonicalD(4) [of stmts deps uses i j] can that k have "j \<noteq> k" by auto
    then show "?C ?ss j = ?C ss0 j" by (rule Csame)
  qed
  have rec: "1 \<le> start_cycle (?ss ! i) \<and> start_cycle (?ss ! i) =
          (if deps ! i = [] then 1 else Max (?C ?ss ` set (deps ! i)))" if "i < Suc k" for i
  proof (cases "i = k")
    case True
    have "start_cycle (?ss ! k) = (if deps ! k = [] then 1 else Max (?C ?ss ` set (deps ! k)))"
      unfolding startk img [OF le_refl] by (rule v_def)
    moreover have "1 \<le> start_cycle (?ss ! k)" unfolding startk by (rule v1)
    ultimately show ?thesis unfolding True by blast
  next
    case False
    with that have i: "i < k" by simp
    have same: "start_cycle (?ss ! i) = start_cycle (ss0 ! i)" using False by simp
    have "start_cycle (?ss ! i) = (if deps ! i = [] then 1 else Max (?C ?ss ` set (deps ! i)))"
      unfolding img [OF less_imp_le [OF i]] same by (rule rec0 [OF i])
    moreover have "1 \<le> start_cycle (?ss ! i)" unfolding same by (rule done0 [OF i])
    ultimately show ?thesis by blast
  qed
  have todo: "start_cycle (?ss ! i) = 0" if "Suc k \<le> i" "i < length stmts" for i
    using that todo0 [of i] by simp
  have eqimg: "?G ?ss ` {..<Suc k} = insert (?G ?ss k) (?G ss0 ` {..<k})"
    using Gsame by (auto simp: lessThan_Suc image_iff)
  have "Max (insert 0 (?G ?ss ` {..<Suc k}))
          = Max (insert (?G ?ss k) (insert 0 (?G ss0 ` {..<k})))"
    unfolding eqimg by (simp only: insert_commute)
  also have "\<dots> = max (?G ?ss k) (Max (insert 0 (?G ss0 ` {..<k})))"
    by (rule Max_insert) simp_all
  also have "\<dots> = max m0 (?G ?ss k)"
    unfolding m0 by (rule max.commute)
  finally have mx: "Max (insert 0 (?G ?ss ` {..<Suc k})) = max m0 (?G ?ss k)" .
  have shape: "map reset_start ?ss = map reset_start stmts" using shape0 by simp
  show ?case unfolding res using shape rec todo mx [symmetric] by blast
qed

text \<open>
  Claim C8 (ASAP pass).  On a canonical graph \<^verbatim>\<open>scheduleASAP\<close> leaves every statement
  without dependencies at start cycle 1 and every other statement \<open>i\<close> at the maximum over
  \<open>j \<in> deps[i]\<close> of \<open>start_cycle[j] + max(latency[j] - 1, 0) + 1\<close>; the value it returns is the
  maximum over all statements of \<open>start_cycle + max(latency - 1, 0)\<close>; and every statement
  starts strictly after each of its predecessors, combinational or not.
\<close>

theorem scheduleASAP_correct:
  assumes "canonical stmts deps uses" and "scheduleASAP stmts deps = (ss, L)"
  shows "length ss = length stmts \<and> map op ss = map op stmts \<and>
     (\<forall>i < length ss. start_cycle (ss ! i) =
        (if deps ! i = [] then 1
         else Max ((\<lambda>j. start_cycle (ss ! j) + max (latency (op (ss ! j)) - 1) 0 + 1)
                     ` set (deps ! i)))) \<and>
     (\<forall>i < length ss. \<forall>j \<in> set (deps ! i). start_cycle (ss ! j) < start_cycle (ss ! i)) \<and>
     (ss \<noteq> [] \<longrightarrow> L = Max ((\<lambda>s. start_cycle s + max (latency (op s) - 1) 0) ` set ss))"
proof -
  let ?C = "\<lambda>j. start_cycle (ss ! j) + max (latency (op (ss ! j)) - 1) 0 + 1"
  let ?g = "\<lambda>s. start_cycle s + max (latency (op s) - 1) 0"
  have run: "fold (asap_stmt deps) [0..<length stmts] (map reset_start stmts, 0) = (ss, L)"
    using assms(2) by (simp add: scheduleASAP_def)
  note P = asap_prefix [OF assms(1) le_refl run]
  from P have shape: "map reset_start ss = map reset_start stmts" by blast
  from P have pos: "\<And>i. i < length stmts \<Longrightarrow> 1 \<le> start_cycle (ss ! i)" by blast
  from P have rec: "\<And>i. i < length stmts \<Longrightarrow> start_cycle (ss ! i) =
        (if deps ! i = [] then 1 else Max (?C ` set (deps ! i)))" by blast
  from P have L: "L = Max (insert 0 ((\<lambda>i. ?g (ss ! i)) ` {..<length stmts}))" by blast
  have len: "length ss = length stmts" using shape map_eq_imp_length_eq by blast
  have ops: "map op ss = map op stmts"
    using same_shape_nth [OF shape] len by (simp add: list_eq_iff_nth_eq)
  have before: "start_cycle (ss ! j) < start_cycle (ss ! i)"
    if i: "i < length stmts" and j: "j \<in> set (deps ! i)" for i j
  proof -
    from j have ne: "deps ! i \<noteq> []" by auto
    have "?C j \<le> Max (?C ` set (deps ! i))" using j by (intro Max_ge) simp_all
    with rec [OF i] ne show ?thesis by simp
  qed
  have latency: "L = Max (?g ` set ss)" if "ss \<noteq> []"
  proof -
    have img: "(\<lambda>i. ?g (ss ! i)) ` {..<length stmts} = ?g ` set ss"
      by (auto simp: set_conv_nth len image_iff)
    from that obtain s where s: "s \<in> set ss" by (cases ss) auto
    then obtain i where "i < length stmts" "s = ss ! i" by (auto simp: set_conv_nth len)
    with pos [of i] have "0 \<le> ?g s" by simp
    also have "?g s \<le> Max (?g ` set ss)" using s by (intro Max_ge) simp_all
    finally have "Max (insert 0 (?g ` set ss)) = Max (?g ` set ss)"
      using that by (simp add: max_def)
    with L img show ?thesis by simp
  qed
  from len ops rec before latency show ?thesis by simp
qed

theorem scheduleASAP_correct_witness:
  "canonical fan_in fan_in_deps fan_in_uses \<and>
   scheduleASAP fan_in fan_in_deps = (fan_in_asap, 4) \<and>
   2 < length fan_in_asap \<and> 0 \<in> set (fan_in_deps ! 2) \<and> fan_in_asap \<noteq> [] \<and>
   start_cycle (fan_in_asap ! 2) =
     (if fan_in_deps ! 2 = [] then 1
      else Max ((\<lambda>j. start_cycle (fan_in_asap ! j) + max (latency (op (fan_in_asap ! j)) - 1) 0 + 1)
                  ` set (fan_in_deps ! 2))) \<and>
   start_cycle (fan_in_asap ! 0) < start_cycle (fan_in_asap ! 2) \<and>
   (4 :: int) = Max ((\<lambda>s. start_cycle s + max (latency (op s) - 1) 0) ` set fan_in_asap)"
proof -
  have c: "canonical fan_in fan_in_deps fan_in_uses" by code_simp
  have r: "scheduleASAP fan_in fan_in_deps = (fan_in_asap, 4)" by code_simp
  have i: "2 < length fan_in_asap" by code_simp
  have j: "0 \<in> set (fan_in_deps ! 2)" by code_simp
  have n: "fan_in_asap \<noteq> []" by code_simp
  from scheduleASAP_correct [OF c r] i j n c r show ?thesis by blast
qed

section \<open>Progress of the list scheduler\<close>

lemma live_invD:
  assumes "live_inv deps (pc, s)"
  shows "\<And>i. i < length (statements s) \<Longrightarrow>
        i \<in> set (completedStatements s) \<or> i \<in> set (notReady s) \<or>
        i \<in> set (readyQueue s) \<or> i \<in> set (scheduled s)"
    and "\<And>i. i \<in> set (notReady s) \<Longrightarrow> \<exists>j \<in> set (deps ! i).
        j \<notin> set (completedStatements s) \<or> currentCycle s < start_of s j + span_of s j"
    and "pc = Outer \<Longrightarrow> scheduled s = []"
    and "pc \<noteq> Outer \<Longrightarrow> length (completedStatements s) < length (statements s)"
    and "pc = Commit \<Longrightarrow> active_now s"
  using assms unfolding live_inv_def by simp_all

lemma well_budgetedD:
  assumes "well_budgeted stmts T" "i < length stmts"
  shows "limit (op (stmts ! i)) < 0 \<Longrightarrow> delay (op (stmts ! i)) \<le> T"
    and "\<not> limit (op (stmts ! i)) < 0 \<Longrightarrow> 1 \<le> limit (op (stmts ! i))"
  using assms by (auto simp: well_budgeted_def list_all_length split: if_splits)

lemma span_of_pos: "1 \<le> span_of s j"
  by (simp add: span_of_def)

text \<open>Placing a statement lowers the potential by one.\<close>

lemma potential_place:
  assumes i: "i < length (statements s)" "start_of s i = 0" and cur: "1 \<le> currentCycle s"
    and st: "statements s' = set_start_cycle i (currentCycle s) (statements s)"
    and same: "currentCycle s' = currentCycle s"
  shows "potential s' < potential s"
proof -
  have start': "start_of s' j = (if j = i then currentCycle s else start_of s j)" for j
    using i(1) by (simp add: start_of_def st start_set_start_cycle)
  have span': "span_of s' j = span_of s j" for j
    by (simp add: span_of_def st)
  have le: "remaining s' j \<le> remaining s j" for j
    using cur i(2) by (simp add: remaining_def start' span' same)
  have lt: "remaining s' i < remaining s i"
    using cur i(2) by (simp add: remaining_def start' span' same)
  have "(\<Sum>j<length (statements s). remaining s' j) < (\<Sum>j<length (statements s). remaining s j)"
    by (rule sum_strict_mono_ex1) (use le lt i(1) in auto)
  then show ?thesis by (simp add: potential_def st)
qed

lemma potential_end_of_cycle:
  assumes "active_now s"
  shows "potential (end_of_cycle pr deps s) < potential s"
proof -
  let ?s' = "end_of_cycle pr deps s"
  from assms obtain a where a: "a < length (statements s)" "start_of s a \<noteq> 0"
    "currentCycle s < start_of s a + span_of s a" by (auto simp: active_now_def)
  have le: "remaining ?s' j \<le> remaining s j" for j
    unfolding remaining_def by (simp add: end_of_cycle_fields) linarith
  have lt: "remaining ?s' a < remaining s a"
    using a unfolding remaining_def by (simp add: end_of_cycle_fields)
  have "(\<Sum>j<length (statements s). remaining ?s' j) < (\<Sum>j<length (statements s). remaining s j)"
    by (rule sum_strict_mono_ex1) (use le lt a(1) in auto)
  then show ?thesis by (simp add: potential_def end_of_cycle_fields)
qed

lemma live_place:
  assumes inv: "sched_inv stmts0 deps s" and live: "live_inv deps (Drain, s)"
    and iq: "i \<in> set (readyQueue s)"
    and st: "statements s' = set_start_cycle i (currentCycle s) (statements s)"
    and qset: "set (readyQueue s') = set (readyQueue s) - {i}"
    and sc: "scheduled s' = scheduled s @ [i]"
    and same: "completedStatements s' = completedStatements s" "notReady s' = notReady s"
      "currentCycle s' = currentCycle s"
  shows "live_inv deps (Drain, s')"
proof -
  note D = sched_invD [OF inv]
  note L = live_invD [OF live]
  have i: "i < length (statements s)" "start_of s i = 0"
    using D(7) [OF iq] D(2) by simp_all
  have start': "start_of s' k = (if k = i then currentCycle s else start_of s k)" for k
    using i(1) by (simp add: start_of_def st start_set_start_cycle)
  have span': "span_of s' k = span_of s k" for k
    by (simp add: span_of_def st)
  show ?thesis
    unfolding live_inv_def fst_conv snd_conv
  proof (intro conjI allI impI ballI)
    fix k assume "k < length (statements s')"
    then have "k < length (statements s)" by (simp add: st)
    from L(1) [OF this]
    show "k \<in> set (completedStatements s') \<or> k \<in> set (notReady s') \<or>
          k \<in> set (readyQueue s') \<or> k \<in> set (scheduled s')"
      by (cases "k = i") (auto simp: same qset sc)
  next
    fix k assume "k \<in> set (notReady s')"
    then have "k \<in> set (notReady s)" by (simp add: same)
    from L(2) [OF this] obtain j where j: "j \<in> set (deps ! k)"
      "j \<notin> set (completedStatements s) \<or> currentCycle s < start_of s j + span_of s j" by blast
    have "j \<notin> set (completedStatements s') \<or> currentCycle s' < start_of s' j + span_of s' j"
    proof (cases "j \<in> set (completedStatements s)")
      case False
      then show ?thesis by (simp add: same)
    next
      case True
      with D(12) [OF True] i(2) have "j \<noteq> i" by auto
      with True j(2) show ?thesis by (simp add: start' span' same)
    qed
    with j(1) show "\<exists>j\<in>set (deps ! k). j \<notin> set (completedStatements s') \<or>
        currentCycle s' < start_of s' j + span_of s' j" by blast
  next
    show "length (completedStatements s') < length (statements s')"
      using L(4) by (simp add: same st)
  qed simp_all
qed

lemma live_end_of_cycle:
  assumes live: "live_inv deps (Commit, s)"
  shows "live_inv deps (Outer, end_of_cycle pr deps s)"
proof -
  note L = live_invD [OF live]
  note F = end_of_cycle_fields
  let ?cs = "List.union (scheduled s) (completedStatements s)"
  let ?s' = "end_of_cycle pr deps s"
  show ?thesis
    unfolding live_inv_def fst_conv snd_conv
  proof (intro conjI allI impI ballI)
    fix k assume "k < length (statements ?s')"
    then have "k < length (statements s)" by (simp add: F)
    from L(1) [OF this]
    show "k \<in> set (completedStatements ?s') \<or> k \<in> set (notReady ?s') \<or>
          k \<in> set (readyQueue ?s') \<or> k \<in> set (scheduled ?s')"
      by (auto simp: F fold_queue_push_set)
  next
    fix k assume "k \<in> set (notReady ?s')"
    then have "\<not> isReady deps (s\<lparr>completedStatements := ?cs\<rparr>) k" by (simp add: F)
    then obtain j where "j \<in> set (deps ! k)"
      "j \<notin> set ?cs \<or> \<not> start_of s j + span_of s j \<le> currentCycle s + 1"
      unfolding isReady_iff by blast
    then show "\<exists>j\<in>set (deps ! k). j \<notin> set (completedStatements ?s') \<or>
        currentCycle ?s' < start_of ?s' j + span_of ?s' j"
      by (intro bexI [of _ j]) (auto simp: F)
  next
    show "scheduled ?s' = []" by (simp add: F)
  qed simp_all
qed

lemma live_init: "live_inv deps (Outer, init_state stmts deps)"
  unfolding live_inv_def fst_conv snd_conv
proof (intro conjI allI impI ballI)
  fix i assume "i \<in> set (notReady (init_state stmts deps))"
  then have "deps ! i \<noteq> []" by (simp add: init_state_def)
  then obtain j where "j \<in> set (deps ! i)" by (cases "deps ! i") auto
  then show "\<exists>j\<in>set (deps ! i). j \<notin> set (completedStatements (init_state stmts deps)) \<or>
       currentCycle (init_state stmts deps)
         < start_of (init_state stmts deps) j + span_of (init_state stmts deps) j"
    by (intro bexI [of _ j]) (simp_all add: init_state_def)
qed (auto simp: init_state_def fold_queue_push_set)

lemma active_when_idle:
  assumes can: "canonical stmts0 deps uses" and inv: "sched_inv stmts0 deps s"
    and live: "live_inv deps (Drain, s)" and empty: "readyQueue s = []"
  shows "active_now s"
proof (cases "scheduled s = []")
  case False
  then obtain i where i: "i \<in> set (scheduled s)" by (cases "scheduled s") auto
  note D = sched_invD [OF inv]
  from D(13) [OF i] D(3) D(2) span_of_pos [of s i] show ?thesis
    unfolding active_now_def by (intro exI [of _ i]) simp
next
  case True
  note D = sched_invD [OF inv]
  note L = live_invD [OF live]
  have len: "length (statements s) = length stmts0" by (rule D(2))
  have "\<exists>i < length stmts0. i \<notin> set (completedStatements s)"
  proof (rule ccontr)
    assume "\<not> ?thesis"
    then have "{..<length stmts0} \<subseteq> set (completedStatements s)" by auto
    then have "card {..<length stmts0} \<le> card (set (completedStatements s))"
      by (intro card_mono) simp_all
    also have "\<dots> \<le> length (completedStatements s)" by (rule card_length)
    finally show False using L(4) len by simp
  qed
  then obtain i where "i < length stmts0" "i \<notin> set (completedStatements s)" by blast
  with L(1) [of i] len empty True have "i \<in> set (notReady s)" by simp
  then have "\<exists>i. i \<in> set (notReady s)" ..
  then obtain i0 where i0: "i0 \<in> set (notReady s)"
    and least: "\<And>k. k < i0 \<Longrightarrow> k \<notin> set (notReady s)"
    using exists_least_iff [of "\<lambda>i. i \<in> set (notReady s)"] by blast
  have i0n: "i0 < length stmts0" using D(9) [OF i0] by simp
  from L(2) [OF i0] obtain j where j: "j \<in> set (deps ! i0)"
    "j \<notin> set (completedStatements s) \<or> currentCycle s < start_of s j + span_of s j" by blast
  from canonicalD(4) [OF can i0n j(1)] have lt: "j < i0" by simp
  with i0n have jn: "j < length (statements s)" by (simp add: len)
  from L(1) [OF jn] least [OF lt] empty True have jc: "j \<in> set (completedStatements s)" by simp
  with j(2) D(12) [OF jc] jn show ?thesis
    unfolding active_now_def by (intro exI [of _ j]) simp
qed

lemma active_when_blocked:
  assumes full: "\<not> calculateResourceUsage (statements s) (currentCycle s) k < limit k"
    and k: "1 \<le> limit k"
  shows "active_now s"
proof -
  let ?P = "\<lambda>stmt. start_cycle stmt \<noteq> 0 \<and> name (op stmt) = name k \<and>
              currentCycle s \<ge> start_cycle stmt \<and>
              currentCycle s < start_cycle stmt + latency (op stmt)"
  from full k have "filter ?P (statements s) \<noteq> []"
    by (auto simp: calculateResourceUsage_def)
  then obtain stmt where "stmt \<in> set (statements s)" "?P stmt"
    by (metis (mono_tags, lifting) filter_False)
  then obtain j where j: "j < length (statements s)" "?P (statements s ! j)"
    by (auto simp: in_set_conv_nth)
  then show ?thesis
    unfolding active_now_def
    by (intro exI [of _ j]) (auto simp: start_of_def span_of_def)
qed

lemma potential_same:
  assumes "statements s' = statements s" "currentCycle s' = currentCycle s"
  shows "potential s' = potential s"
proof -
  have "start_of s' = start_of s" "span_of s' = span_of s"
    using assms by (simp_all add: fun_eq_iff start_of_def span_of_def)
  then have "remaining s' = remaining s"
    using assms by (simp add: fun_eq_iff remaining_def)
  then show ?thesis using assms by (simp add: potential_def)
qed

lemma active_now_same:
  "statements s' = statements s \<Longrightarrow> currentCycle s' = currentCycle s \<Longrightarrow>
     active_now s' = active_now s"
  by (simp add: active_now_def start_of_def span_of_def)

lemma live_push_back:
  assumes live: "live_inv deps (Drain, s)" and q: "set q = set (readyQueue s)"
    and act: "active_now s"
  shows "live_inv deps (Commit, s\<lparr>readyQueue := q\<rparr>)"
proof -
  have "active_now (s\<lparr>readyQueue := q\<rparr>)"
    using act active_now_same [of "s\<lparr>readyQueue := q\<rparr>" s] by simp
  then show ?thesis
    using live q unfolding live_inv_def fst_conv snd_conv
    by (simp add: start_of_def span_of_def)
qed

lemma effort_simps:
  "effort (Outer, s) = 3 * potential s + 2"
  "effort (Drain, s) = 3 * potential s + 1"
  "effort (Commit, s) = 3 * potential s"
  by (simp_all add: effort_def rank_def)

lemma live_step:
  assumes can: "canonical stmts0 deps uses" and wb: "well_budgeted stmts0 T"
    and inv: "sched_inv stmts0 deps s" and live: "live_inv deps (pc, s)"
    and nf: "\<not> finished (pc, s)"
  shows "live_inv deps (step pr deps uses T (pc, s)) \<and>
         effort (step pr deps uses T (pc, s)) < effort (pc, s)"
proof (cases pc)
  case Outer
  note L = live_invD [OF live]
  have sc: "scheduled s = []" using L(3) Outer by simp
  then have "s\<lparr>scheduled := []\<rparr> = s" by simp
  moreover have "live_inv deps (Drain, s)"
    using live nf sc unfolding live_inv_def finished_def Outer by simp
  moreover have "length (completedStatements s) < length (statements s)"
    using nf by (simp add: finished_def Outer)
  ultimately show ?thesis by (simp add: step_def Outer effort_simps)
next
  case Commit
  note L = live_invD [OF live]
  from L(5) Commit have act: "active_now s" by simp
  from live_end_of_cycle [of deps s pr] live Commit potential_end_of_cycle [OF act, of pr deps]
  show ?thesis by (simp add: step_def Commit effort_simps)
next
  case Drain
  with live have liveD: "live_inv deps (Drain, s)" by simp
  note D = sched_invD [OF inv]
  show ?thesis
  proof (cases "readyQueue s = []")
    case True
    have act: "active_now s" by (rule active_when_idle [OF can inv liveD True])
    have "live_inv deps (Commit, s)"
      using liveD act unfolding live_inv_def by simp
    with True show ?thesis by (simp add: step_def Drain effort_simps)
  next
    case False
    let ?i = "queue_top (readyQueue s)"
    let ?cmp = "comparator pr (statements s)"
    let ?s1 = "s\<lparr>readyQueue := queue_pop ?cmp (readyQueue s)\<rparr>"
    have iq: "?i \<in> set (readyQueue s)" using False by (rule queue_top_in)
    note P = pop_and_push_back [OF False D(4)]
    have i: "?i < length stmts0" "start_of s ?i = 0" using D(7) [OF iq] by simp_all
    have i': "?i < length (statements s)" using i(1) D(2) by simp
    have zero: "delayByCycle s (currentCycle s) ?i = 0" by (rule ready_read_zero [OF inv iq])
    have opi: "op (statements s ! ?i) = op (stmts0 ! ?i)"
      using same_shape_nth [OF D(1), of ?i] by simp
    consider (comb) "limit (op (statements s ! ?i)) < 0"
      | (phys) "\<not> limit (op (statements s ! ?i)) < 0"
          "calculateResourceUsage (statements s) (currentCycle s) (op (statements s ! ?i))
             < limit (op (statements s ! ?i))"
      | (full) "\<not> limit (op (statements s ! ?i)) < 0"
          "\<not> calculateResourceUsage (statements s) (currentCycle s) (op (statements s ! ?i))
             < limit (op (statements s ! ?i))"
      by blast
    then show ?thesis
    proof cases
      case comb
      let ?s' = "schedule_combinational uses ?i ?s1"
      from well_budgetedD(1) [OF wb i(1)] comb opi
      have fits: "delay (op (statements s ! ?i)) \<le> T" by simp
      have body: "drain_body pr uses T s = (?s', False)"
        using comb fits zero by (simp add: drain_body_def Let_def)
      have "live_inv deps (Drain, ?s')"
        by (rule live_place [OF inv liveD iq]) (simp_all add: schedule_combinational_fields P)
      moreover have "potential ?s' < potential s"
        by (rule potential_place [OF i' i(2) D(3)]) (simp_all add: schedule_combinational_fields)
      ultimately show ?thesis using False by (simp add: step_def Drain body effort_simps)
    next
      case phys
      let ?s' = "schedule_physical uses ?i ?s1"
      have body: "drain_body pr uses T s = (?s', False)"
        using phys by (simp add: drain_body_def Let_def)
      have "live_inv deps (Drain, ?s')"
        by (rule live_place [OF inv liveD iq]) (simp_all add: schedule_physical_fields P)
      moreover have "potential ?s' < potential s"
        by (rule potential_place [OF i' i(2) D(3)]) (simp_all add: schedule_physical_fields)
      ultimately show ?thesis using False by (simp add: step_def Drain body effort_simps)
    next
      case full
      let ?s' = "s\<lparr>readyQueue := queue_push ?cmp ?i (queue_pop ?cmp (readyQueue s))\<rparr>"
      have body: "drain_body pr uses T s = (?s', True)"
        using full by (simp add: drain_body_def Let_def)
      from well_budgetedD(2) [OF wb i(1)] full(1) opi
      have "1 \<le> limit (op (statements s ! ?i))" by simp
      from active_when_blocked [OF full(2) this] have act: "active_now s" .
      have "live_inv deps (Commit, ?s')" by (rule live_push_back [OF liveD P(3) act])
      moreover have "potential ?s' = potential s" by (rule potential_same) simp_all
      ultimately show ?thesis using False by (simp add: step_def Drain body effort_simps)
    qed
  qed
qed

lemma run_terminates:
  assumes can: "canonical stmts0 deps uses" and wb: "well_budgeted stmts0 T"
  shows "sched_inv stmts0 deps (snd cfg) \<Longrightarrow> live_inv deps cfg \<Longrightarrow> effort cfg \<le> fuel \<Longrightarrow>
         \<exists>s. run pr deps uses T fuel cfg = Some s"
proof (induction fuel arbitrary: cfg)
  case 0
  have "finished cfg"
  proof (rule ccontr)
    assume nf: "\<not> finished cfg"
    obtain pc s where cfg: "cfg = (pc, s)" by (cases cfg)
    from live_step [OF can wb, of s pc pr] 0 nf cfg show False by simp
  qed
  then show ?case by simp
next
  case (Suc fuel)
  show ?case
  proof (cases "finished cfg")
    case True
    then show ?thesis by simp
  next
    case False
    obtain pc s where cfg: "cfg = (pc, s)" by (cases cfg)
    from live_step [OF can wb, of s pc pr] Suc.prems False cfg
    have "live_inv deps (step pr deps uses T cfg)" "effort (step pr deps uses T cfg) \<le> fuel"
      by simp_all
    moreover have "sched_inv stmts0 deps (snd (step pr deps uses T cfg))"
      by (rule sched_inv_step [OF can Suc.prems(1)])
    ultimately obtain s' where "run pr deps uses T fuel (step pr deps uses T cfg) = Some s'"
      using Suc.IH by blast
    with False show ?thesis by simp
  qed
qed


section \<open>What the passes read and what they leave unchanged\<close>

lemma reset_start_idem [simp]: "reset_start (reset_start x) = reset_start x"
  by (simp add: reset_start_def)

lemma reset_start_update [simp]: "reset_start (x\<lparr>start_cycle := c\<rparr>) = reset_start x"
  by (simp add: reset_start_def)

lemma asap_pred_shape: "map reset_start (fold (asap_pred p) js ss) = map reset_start ss"
  by (induction js arbitrary: ss) (simp_all add: asap_pred_def Let_def)

lemma asap_stmt_shape: "map reset_start (fst (asap_stmt deps p st)) = map reset_start (fst st)"
  by (cases st) (simp add: asap_stmt_def Let_def asap_pred_shape)

lemma asap_fold_shape:
  "map reset_start (fst (fold (asap_stmt deps) ps st)) = map reset_start (fst st)"
  by (induction ps arbitrary: st) (simp_all add: asap_stmt_shape)

lemma scheduleASAP_shape: "map reset_start (fst (scheduleASAP stmts deps)) = map reset_start stmts"
  by (simp add: scheduleASAP_def asap_fold_shape)

lemma alap_stmt_shape: "map reset_start (fst (alap_stmt uses l p st)) = map reset_start (fst st)"
  by (cases st) (simp add: alap_stmt_def Let_def)

lemma alap_fold_shape:
  "map reset_start (fst (fold (alap_stmt uses l) ps st)) = map reset_start (fst st)"
  by (induction ps arbitrary: st) (simp_all add: alap_stmt_shape)

lemma scheduleALAP_shape: "map reset_start (fst (scheduleALAP stmts uses l)) = map reset_start stmts"
proof -
  obtain ss e where f: "fold (alap_stmt uses l) (rev [0..<length stmts]) (map reset_start stmts, l) = (ss, e)"
    by (cases "fold (alap_stmt uses l) (rev [0..<length stmts]) (map reset_start stmts, l)")
  from alap_fold_shape [of uses l "rev [0..<length stmts]" "(map reset_start stmts, l)"] f
  have "map reset_start ss = map reset_start stmts" by simp
  then show ?thesis by (simp add: scheduleALAP_def f Let_def comp_def)
qed

lemma same_shape_length: "map reset_start a = map reset_start b \<Longrightarrow> length a = length b"
  using map_eq_imp_length_eq by blast

lemma scheduleASAP_cong:
  "map reset_start a = map reset_start b \<Longrightarrow> scheduleASAP a deps = scheduleASAP b deps"
  using same_shape_length [of a b] by (simp add: scheduleASAP_def)

lemma scheduleALAP_cong:
  "map reset_start a = map reset_start b \<Longrightarrow> scheduleALAP a uses l = scheduleALAP b uses l"
  using same_shape_length [of a b] by (simp add: scheduleALAP_def)

lemma same_shape_idx: 
  assumes "map reset_start a = map reset_start b"
  shows "map idx a = map idx b"
  using same_shape_nth [OF assms] same_shape_length [OF assms]
  by (simp add: list_eq_iff_nth_eq)

lemma validate_by_idx:
  "validateTopologicalOrder stmts deps =
     list_all (\<lambda>i. list_all (\<lambda>d. \<not> d > i) (deps ! i)) (map idx stmts)"
  by (simp add: validateTopologicalOrder_def list_all_iff)

lemma validate_cong:
  "map reset_start a = map reset_start b \<Longrightarrow>
     validateTopologicalOrder a deps = validateTopologicalOrder b deps"
  using same_shape_idx [of a b] by (simp add: validate_by_idx)

lemma canonical_cong:
  assumes "map reset_start a = map reset_start b"
  shows "canonical a deps uses = canonical b deps uses"
proof -
  have len: "length a = length b" by (rule same_shape_length [OF assms])
  have idx: "idx (a ! i) = idx (b ! i)" for i using same_shape_nth [OF assms, of i] by blast
  show ?thesis unfolding canonical_def len idx by (rule refl)
qed

lemma canonical_validate:
  assumes "canonical stmts deps uses"
  shows "validateTopologicalOrder stmts deps"
  unfolding validateTopologicalOrder_def list_all_iff
proof (intro ballI)
  fix statement d assume s: "statement \<in> set stmts" and d: "d \<in> set (deps ! idx statement)"
  from s obtain i where i: "i < length stmts" "statement = stmts ! i"
    by (auto simp: in_set_conv_nth)
  with canonicalD(3) [OF assms i(1)] have "idx statement = i" by simp
  with canonicalD(4) [OF assms i(1), of d] d show "\<not> idx statement < d" by simp
qed

lemma map_eq_nth_any: "map f a = map f b \<Longrightarrow> f (a ! k) = f (b ! k)"
proof (induction a arbitrary: b k)
  case Nil
  then show ?case by simp
next
  case (Cons x a)
  then obtain y b' where b: "b = y # b'" by (cases b) auto
  with Cons.prems have "f x = f y" "map f a = map f b'" by simp_all
  with Cons.IH [of b'] b show ?case by (cases k) simp_all
qed

lemma drain_body_shape:
  "map reset_start (statements (fst (drain_body pr uses T s))) = map reset_start (statements s)"
  by (simp add: drain_body_def Let_def schedule_combinational_fields schedule_physical_fields)

lemma step_shape:
  "map reset_start (statements (snd (step pr deps uses T cfg))) = map reset_start (statements (snd cfg))"
proof (cases cfg)
  case (Pair pc s)
  show ?thesis
  proof (cases pc)
    case Drain
    show ?thesis
      using drain_body_shape [of pr uses T s]
      by (cases "drain_body pr uses T s") (simp add: step_def Pair Drain)
  qed (simp_all add: step_def Pair end_of_cycle_fields)
qed

lemma funpow_step_shape:
  "map reset_start (statements (snd ((step pr deps uses T ^^ k) cfg)))
     = map reset_start (statements (snd cfg))"
  by (induction k) (simp_all add: step_shape)

lemma scheduleByList_shape:
  assumes "scheduleByList fuel stmts deps uses T = Some (ss, L)"
  shows "map reset_start ss = map reset_start stmts"
proof -
  from assms obtain s where
    s: "run (map start_cycle stmts) deps uses T fuel (Outer, init_state stmts deps) = Some s"
    and ss: "ss = statements s"
    by (auto simp: scheduleByList_def)
  from run_reaches [OF s] obtain k where
    "(step (map start_cycle stmts) deps uses T ^^ k) (Outer, init_state stmts deps) = (Outer, s)"
    by blast
  with funpow_step_shape [where pr = "map start_cycle stmts" and deps = deps and uses = uses
      and T = T and k = k and cfg = "(Outer, init_state stmts deps)"]
  show ?thesis by (simp add: ss init_state_def)
qed

lemma reorder_cong:
  assumes shape: "map reset_start a = map reset_start b"
  shows "(\<exists>e. reorderToTopological a deps uses = Inl e \<and> reorderToTopological b deps uses = Inl e) \<or>
         (\<exists>ra rb d u. reorderToTopological a deps uses = Inr (ra, d, u) \<and>
                       reorderToTopological b deps uses = Inr (rb, d, u) \<and>
                       map reset_start ra = map reset_start rb)"
proof (cases "validateTopologicalOrder a deps")
  case True
  with validate_cong [OF shape, of deps] shape show ?thesis
    by (simp add: reorderToTopological_def)
next
  case False
  with validate_cong [OF shape, of deps] have nb: "\<not> validateTopologicalOrder b deps" by simp
  have len: "length a = length b" by (rule same_shape_length [OF shape])
  define so where "so = kahn uses (map (\<lambda>i. int (length (deps ! i))) [0..<length b])
      (filter (\<lambda>i. map (\<lambda>i. int (length (deps ! i))) [0..<length b] ! i = 0) [0..<length b]) []"
  define ra where "ra = map (\<lambda>i. (a ! (so ! i))\<lparr>idx := i\<rparr>) [0..<length b]"
  define rb where "rb = map (\<lambda>i. (b ! (so ! i))\<lparr>idx := i\<rparr>) [0..<length b]"
  have move: "reset_start (x\<lparr>idx := i\<rparr>) = (reset_start x)\<lparr>idx := i\<rparr>" for x i
    by (simp add: reset_start_def)
  have each: "reset_start ((a ! k)\<lparr>idx := i\<rparr>) = reset_start ((b ! k)\<lparr>idx := i\<rparr>)" for k i
    unfolding move map_eq_nth_any [OF shape, of k] by (rule refl)
  have rshape: "map reset_start ra = map reset_start rb"
    by (simp add: ra_def rb_def each)
  have ridx: "idx (ra ! k) = idx (rb ! k)" for k
    using same_shape_nth [OF rshape, of k] by blast
  have a: "reorderToTopological a deps uses =
      (if length so < length b then Inl (RuntimeError ''Topological order cannot be fixed due to a cycle.'')
       else Inr (ra, map (\<lambda>i. map (\<lambda>dep. idx (ra ! dep)) (deps ! (so ! i))) [0..<length b],
                 map (\<lambda>i. map (\<lambda>use. idx (ra ! use)) (uses ! (so ! i))) [0..<length b]))"
    using False by (simp add: reorderToTopological_def Let_def len so_def ra_def)
  have b: "reorderToTopological b deps uses =
      (if length so < length b then Inl (RuntimeError ''Topological order cannot be fixed due to a cycle.'')
       else Inr (rb, map (\<lambda>i. map (\<lambda>dep. idx (rb ! dep)) (deps ! (so ! i))) [0..<length b],
                 map (\<lambda>i. map (\<lambda>use. idx (rb ! use)) (uses ! (so ! i))) [0..<length b]))"
    using nb by (simp add: reorderToTopological_def Let_def so_def rb_def)
  show ?thesis unfolding a b ridx using rshape by simp
qed


section \<open>Termination, configuration errors and repeated invocation\<close>

lemma effort_init: "effort (Outer, init_state stmts deps) = fuel_bound stmts"
proof -
  let ?f = "\<lambda>stmt. nat (max (latency (op stmt)) 1) + 1"
  have "remaining (init_state stmts deps) j = ?f (stmts ! j)" if "j < length stmts" for j
    using that by (simp add: remaining_def start_of_def span_of_def init_state_def reset_start_def)
  then have "potential (init_state stmts deps) = (\<Sum>j<length stmts. ?f (stmts ! j))"
    by (simp add: potential_def init_state_def)
  also have "\<dots> = sum_list (map ?f stmts)"
    by (simp add: sum_list_sum_nth atLeast0LessThan)
  finally show ?thesis by (simp add: effort_simps fuel_bound_def)
qed

lemma queue_of_one:
  "queue_push cmp x [] = [x]" "queue_pop cmp [x] = []" "queue_top [x] = x"
  by (simp_all add: queue_push_def queue_pop_def queue_top_def push_heap_loop.simps)

text \<open>
  Claim C4 (termination of the list scheduler, with a \<^verbatim>\<open>SchedulerStuck\<close> failure as the last
  resort).  As stated it fails on one combinational statement whose delay 2 exceeds the clock
  period 1: the branch for a statement over the budget pushes the index back and goes on
  with the inner loop, which pops the same index again in the same cycle.  The loop body
  maps the configuration to itself, so the cycle counter never advances, and no failure is
  raised: the code has none to raise.
\<close>

theorem over_budget_spins:
  "step [0] [[]] [[]] 1 (Drain, init_state over_budget [[]]) = (Drain, init_state over_budget [[]]) \<and>
   \<not> finished (Drain, init_state over_budget [[]]) \<and>
   scheduleByList 40 over_budget [[]] [[]] 1 = None"
proof -
  have "step [0] [[]] [[]] 1 (Drain, init_state over_budget [[]]) = (Drain, init_state over_budget [[]])"
    by (simp add: step_def init_state_def over_budget_def drain_body_def Let_def comparator_def
          stmt_at_def comb_def reset_start_def queue_of_one)
  moreover have "\<not> finished (Drain, init_state over_budget [[]])"
    by (simp add: finished_def)
  moreover have "scheduleByList 40 over_budget [[]] [[]] 1 = None"
    by code_simp
  ultimately show ?thesis by blast
qed

text \<open>
  Claim C4 as amended.  On a canonical graph in which every combinational statement has
  \<open>op.delay\<close> at most the clock period and every resource-limited operation has a limit of at
  least 1, the list scheduler returns, with every statement placed in a cycle \<open>\<ge> 1\<close>; the
  number of steps of the two loops is bounded by \<open>fuel_bound\<close>, three times the sum of
  \<open>max(latency, 1) + 1\<close> over the statements, plus two.
\<close>

theorem scheduleByList_terminates:
  assumes "canonical stmts deps uses" and "well_budgeted stmts T" and "fuel_bound stmts \<le> fuel"
  shows "\<exists>ss L. scheduleByList fuel stmts deps uses T = Some (ss, L) \<and>
           length ss = length stmts \<and> list_all (\<lambda>stmt. 1 \<le> start_cycle stmt) ss"
proof -
  let ?pr = "map start_cycle stmts"
  have "\<exists>s. run ?pr deps uses T fuel (Outer, init_state stmts deps) = Some s"
    by (rule run_terminates [OF assms(1,2)])
       (use assms(3) in \<open>simp_all add: sched_inv_init [OF assms(1)] live_init effort_init\<close>)
  then obtain s where s: "run ?pr deps uses T fuel (Outer, init_state stmts deps) = Some s" ..
  then have r: "scheduleByList fuel stmts deps uses T = Some (statements s, finalLatency (statements s))"
    by (simp add: scheduleByList_def)
  from scheduleByList_final [OF assms(1) r] obtain s' where s': "statements s = statements s'"
    "sched_inv stmts deps s'" "finished (Outer, s')" by metis
  note D = sched_invD [OF s'(2)]
  have "1 \<le> start_cycle (statements s ! i)" if "i < length (statements s)" for i
  proof -
    from that have i: "i < length stmts" by (simp add: s'(1) D(2))
    from D(10) [OF i finished_all_placed(2) [OF s'(2) s'(3) i]] show ?thesis
      by (simp add: s'(1) start_of_def)
  qed
  then have "list_all (\<lambda>stmt. 1 \<le> start_cycle stmt) (statements s)"
    by (simp add: list_all_length)
  with r D(2) s'(1) show ?thesis by simp
qed

theorem scheduleByList_terminates_witness:
  "canonical fan_in fan_in_deps fan_in_uses \<and> well_budgeted fan_in 1 \<and> fuel_bound fan_in \<le> 32 \<and>
   scheduleByList 32 fan_in fan_in_deps fan_in_uses 1 = Some (fan_in_scheduled, 7) \<and>
   (\<exists>ss L. scheduleByList 32 fan_in fan_in_deps fan_in_uses 1 = Some (ss, L) \<and>
           length ss = length fan_in \<and> list_all (\<lambda>stmt. 1 \<le> start_cycle stmt) ss)"
proof -
  have c: "canonical fan_in fan_in_deps fan_in_uses" by code_simp
  have w: "well_budgeted fan_in 1" by code_simp
  have f: "fuel_bound fan_in \<le> 32" by code_simp
  have r: "scheduleByList 32 fan_in fan_in_deps fan_in_uses 1 = Some (fan_in_scheduled, 7)"
    by code_simp
  from scheduleByList_terminates [OF c w f] c w f r show ?thesis by blast
qed

lemma never_placed:
  assumes can: "canonical stmts deps uses" and i: "i < length stmts"
    and comb: "limit (op (stmts ! i)) < 0" and over: "T < delay (op (stmts ! i))"
  shows "start_of (snd ((step pr deps uses T ^^ k) (Outer, init_state stmts deps))) i = 0"
proof (induction k)
  case 0
  show ?case using i by (simp add: start_of_def init_state_def reset_start_def)
next
  case (Suc k)
  obtain pc s where cfg: "(step pr deps uses T ^^ k) (Outer, init_state stmts deps) = (pc, s)"
    by (cases "(step pr deps uses T ^^ k) (Outer, init_state stmts deps)")
  from sched_inv_reachable [OF can, where pr = pr and T = T and k = k] cfg
  have inv: "sched_inv stmts deps s" by simp
  note D = sched_invD [OF inv]
  from Suc cfg have zero: "start_of s i = 0" by simp
  have opi: "op (statements s ! i) = op (stmts ! i)"
    using same_shape_nth [OF D(1), of i] by simp
  have "start_of (snd (step pr deps uses T (pc, s))) i = 0"
  proof (cases pc)
    case Outer
    then show ?thesis using zero by (simp add: step_def start_of_def)
  next
    case Commit
    then show ?thesis using zero by (simp add: step_def)
  next
    case Drain
    show ?thesis
    proof (cases "readyQueue s = []")
      case True
      then show ?thesis using zero by (simp add: step_def Drain)
    next
      case False
      let ?t = "queue_top (readyQueue s)"
      have tq: "?t \<in> set (readyQueue s)" using False by (rule queue_top_in)
      have read: "delayByCycle s (currentCycle s) ?t = 0" by (rule ready_read_zero [OF inv tq])
      have "start_of (fst (drain_body pr uses T s)) i = 0"
      proof (cases "?t = i")
        case True
        with comb over opi read zero show ?thesis
          by (simp add: drain_body_def Let_def start_of_def)
      next
        case False
        with zero show ?thesis
          by (simp add: drain_body_def Let_def start_of_def schedule_combinational_fields
                schedule_physical_fields)
      qed
      with False show ?thesis
        by (cases "drain_body pr uses T s") (simp add: step_def Drain)
    qed
  qed
  with cfg show ?case by simp
qed

lemma over_budget_never_returns:
  assumes can: "canonical stmts deps uses" and i: "i < length stmts"
    and comb: "limit (op (stmts ! i)) < 0" and over: "T < delay (op (stmts ! i))"
  shows "scheduleByList fuel stmts deps uses T = None"
proof (cases "scheduleByList fuel stmts deps uses T")
  case None
  then show ?thesis .
next
  case (Some r)
  obtain ss L where r: "r = (ss, L)" by (cases r)
  from Some r obtain s where
    s: "run (map start_cycle stmts) deps uses T fuel (Outer, init_state stmts deps) = Some s"
    by (auto simp: scheduleByList_def)
  from run_reaches [OF s] obtain k where
    k: "(step (map start_cycle stmts) deps uses T ^^ k) (Outer, init_state stmts deps) = (Outer, s)"
    and fin: "finished (Outer, s)" by blast
  from sched_inv_reachable [OF can, where pr = "map start_cycle stmts" and T = T and k = k] k
  have inv: "sched_inv stmts deps s" by simp
  from never_placed [OF can i comb over, where pr = "map start_cycle stmts" and k = k] k
  have "start_of s i = 0" by simp
  with finished_all_placed(2) [OF inv fin i] show ?thesis by simp
qed

text \<open>
  Claim C9 (\<^verbatim>\<open>InvalidConfig\<close> is raised when the clock period is not positive or some
  \<open>op.delay\<close> exceeds it).  The code makes no such check.  A resource-limited statement is
  placed without its delay ever being compared with the clock period: one \<^verbatim>\<open>ADD\<close> of delay
  5 is scheduled in cycle 1 with clock period 1, and with clock period -1.
\<close>

theorem slow_adder_is_scheduled:
  "schedule 30 (slow_adder 0) [] 1 [[]] [[]] = Inr (Some (slow_adder 1, 1)) \<and>
   schedule 30 (slow_adder 0) [] (- 1) [[]] [[]] = Inr (Some (slow_adder 1, 1))"
  by code_simp

text \<open>
  Claim C9 as amended.  The only error \<^verbatim>\<open>schedule\<close> raises is the canonicalizer's
  \<^verbatim>\<open>runtime_error\<close> for a cycle, and only on a graph that is not yet in topological order.
  On a canonical graph with a combinational statement whose \<open>op.delay\<close> exceeds the clock
  period, \<^verbatim>\<open>schedule\<close> produces no schedule because it does not return, whatever the fuel.
\<close>

theorem schedule_has_no_config_check:
  "(schedule fuel g ol T deps uses = Inl e \<longrightarrow>
      e = RuntimeError ''Topological order cannot be fixed due to a cycle.'' \<and>
      \<not> validateTopologicalOrder g deps) \<and>
   (canonical g deps uses \<and> i < length g \<and> limit (op (g ! i)) < 0 \<and> T < delay (op (g ! i)) \<longrightarrow>
      schedule fuel g ol T deps uses = Inr None)"
proof (rule conjI; rule impI)
  assume "schedule fuel g ol T deps uses = Inl e"
  then show "e = RuntimeError ''Topological order cannot be fixed due to a cycle.'' \<and>
      \<not> validateTopologicalOrder g deps"
    by (auto simp: schedule_def reorderToTopological_def Let_def
          split: sum.splits prod.splits if_splits)
next
  assume a: "canonical g deps uses \<and> i < length g \<and> limit (op (g ! i)) < 0 \<and> T < delay (op (g ! i))"
  then have can: "canonical g deps uses" by blast
  obtain asap l where asap: "scheduleASAP g deps = (asap, l)" by (cases "scheduleASAP g deps")
  obtain alap l' where alap: "scheduleALAP asap uses l = (alap, l')"
    by (cases "scheduleALAP asap uses l")
  have shape: "map reset_start alap = map reset_start g"
    using scheduleALAP_shape [of asap uses l] scheduleASAP_shape [of g deps] asap alap by simp
  have can': "canonical alap deps uses" using canonical_cong [OF shape] can by simp
  have i': "i < length alap" using a same_shape_length [OF shape] by simp
  have opi: "op (alap ! i) = op (g ! i)" using same_shape_nth [OF shape, of i] by simp
  have "scheduleByList fuel alap deps uses T = None"
    by (rule over_budget_never_returns [OF can' i']) (use a opi in simp_all)
  then show "schedule fuel g ol T deps uses = Inr None"
    using canonical_validate [OF can] asap alap
    by (simp add: schedule_def reorderToTopological_def)
qed

theorem schedule_has_no_config_check_witness:
  "schedule 5 swapped_pair [] 1 two_cycle two_cycle
     = Inl (RuntimeError ''Topological order cannot be fixed due to a cycle.'') \<and>
   \<not> validateTopologicalOrder swapped_pair two_cycle \<and>
   canonical over_budget [[]] [[]] \<and> 0 < length over_budget \<and>
   limit (op (over_budget ! 0)) < 0 \<and> 1 < delay (op (over_budget ! 0)) \<and>
   schedule 40 over_budget [] 1 [[]] [[]] = Inr None"
proof -
  have e: "schedule 5 swapped_pair [] 1 two_cycle two_cycle
     = Inl (RuntimeError ''Topological order cannot be fixed due to a cycle.'')" by code_simp
  have c: "canonical over_budget [[]] [[]]" by code_simp
  have i: "0 < length over_budget" by code_simp
  have k: "limit (op (over_budget ! 0)) < 0" by code_simp
  have d: "1 < delay (op (over_budget ! 0))" by code_simp
  from schedule_has_no_config_check [of 5 swapped_pair "[]" 1 two_cycle two_cycle
      "RuntimeError ''Topological order cannot be fixed due to a cycle.''"] e
  have "\<not> validateTopologicalOrder swapped_pair two_cycle" by blast
  moreover from schedule_has_no_config_check [of 40 over_budget "[]" 1 "[[]]" "[[]]" _ 0] c i k d
  have "schedule 40 over_budget [] 1 [[]] [[]] = Inr None" by blast
  ultimately show ?thesis using e c i k d by blast
qed

text \<open>
  Repeated invocation.  The result of \<^verbatim>\<open>schedule\<close> is a function of its inputs, and of the
  graph it reads only the \<open>idx\<close> and \<open>op\<close> of the statements: the start cycles an earlier
  invocation left behind, and the catalogue vector, do not matter.  For a graph already in
  topological order, invoking \<^verbatim>\<open>schedule\<close> again on the graph as the first invocation left
  it, with the same adjacency, returns the same start cycles and the same latency.
\<close>

lemma schedule_repeatable:
  "(map reset_start g1 = map reset_start g2 \<longrightarrow>
      schedule fuel g1 ol1 T deps uses = schedule fuel g2 ol2 T deps uses) \<and>
   (validateTopologicalOrder g deps \<and> schedule fuel g ol T deps uses = Inr (Some (g', L)) \<longrightarrow>
      schedule fuel g' ol T deps uses = Inr (Some (g', L)))"
proof -
  have first: "schedule fuel a ola T deps uses = schedule fuel b olb T deps uses"
    if shape: "map reset_start a = map reset_start b" for a b ola olb
    using reorder_cong [OF shape, of deps uses]
  proof (elim disjE exE conjE)
    fix e assume "reorderToTopological a deps uses = Inl e" "reorderToTopological b deps uses = Inl e"
    then show ?thesis by (simp add: schedule_def)
  next
    fix ra rb d u
    assume r: "reorderToTopological a deps uses = Inr (ra, d, u)"
      "reorderToTopological b deps uses = Inr (rb, d, u)"
      and rs: "map reset_start ra = map reset_start rb"
    show ?thesis by (simp add: schedule_def r scheduleASAP_cong [OF rs])
  qed
  have second: "schedule fuel g' ol T deps uses = Inr (Some (g', L))"
    if v: "validateTopologicalOrder g deps" and r: "schedule fuel g ol T deps uses = Inr (Some (g', L))"
  proof -
    obtain asap l where asap: "scheduleASAP g deps = (asap, l)" by (cases "scheduleASAP g deps")
    obtain alap l' where alap: "scheduleALAP asap uses l = (alap, l')"
      by (cases "scheduleALAP asap uses l")
    have shape: "map reset_start alap = map reset_start g"
      using scheduleALAP_shape [of asap uses l] scheduleASAP_shape [of g deps] asap alap by simp
    from r v asap alap have "scheduleByList fuel alap deps uses T = Some (g', L)"
      by (simp add: schedule_def reorderToTopological_def)
    from scheduleByList_shape [OF this] shape have "map reset_start g' = map reset_start g" by simp
    from first [OF this, of ol ol] r show ?thesis by simp
  qed
  from first second show ?thesis by blast
qed

text \<open>
  Claim C10 (two invocations of \<^verbatim>\<open>schedule\<close> on the same graph, catalogue and clock period
  give the same start cycles and the same latency).  The code breaks this on a graph that
  is not in topological order.  The addition at index 0 consumes the division at index 1.
  The first invocation moves the division to position 0 and the addition to position 3
  but leaves the entry 1 in the row of the addition, which now names the multiplication;
  the addition is scheduled after the multiplication, at cycle 2, and the latency is 5.
  The graph is left in the new order, in which the same edge runs from position 0 to
  position 3.  The second invocation finds it in topological order, schedules the addition
  after the division, at cycle 6, and the latency is 6.
\<close>

theorem second_invocation_differs:
  "\<not> validateTopologicalOrder out_of_order out_of_order_deps \<and>
   reorderToTopological out_of_order out_of_order_deps out_of_order_uses
     = Inr (in_order 0 0, [[], [], [], [1]], [[0], [], [], []]) \<and>
   schedule 60 out_of_order [] 1 out_of_order_deps out_of_order_uses
     = Inr (Some (in_order 1 2, 5)) \<and>
   canonical (in_order 1 2) in_order_deps in_order_uses \<and>
   schedule 60 (in_order 1 2) [] 1 in_order_deps in_order_uses
     = Inr (Some (in_order 1 6, 6))"
  by code_simp

end
